theory Spec2Isabelle
  imports Complex_Main
begin

section \<open>Boards, actions and weight tables\<close>

text \<open>
  The development follows the TD-learning agent of the later of the two agent sources (the
  one with base-31 features, 32 tuples, \<open>expect_value\<close> and the n-step \<open>close_episode\<close>).
  The headers \<open>board.h\<close>, \<open>action.h\<close> and \<open>weight.h\<close> are not part of the sources at hand.

  A board is the 4x4 array \<open>tile\<close> of cell exponents, flattened row by row, so that the
  cell \<open>tile[i / 4][i % 4]\<close>, which the agent also reads as \<open>after(i)\<close>, is the \<open>i\<close>-th
  element of a list of 16 cells. A reward is a machine \<open>int\<close>; overflow is not modelled.

  The type \<open>float\<close> is modelled by the reals: all arithmetic on weights and values is exact,
  and rounding, overflow to infinity and NaN are outside that model. Which direction
  \<open>take_action\<close> picks depends on the rounding, so that choice is stated on a second
  reading of the search, in binary32 arithmetic.
\<close>

type_synonym cell = nat
type_synonym board = "cell list"

text \<open>
  Modelled from the spec: the action type of \<open>action.h\<close>, which is not among the sources.
  An action is a slide in one of the four directions, the placement of a tile at a
  position, or the null action that signals that there is no legal action and that the
  default constructor \<open>action()\<close> builds.
\<close>

datatype direction = Up | Right | Down | Left

datatype action = Slide direction | Place nat cell | NoAction

text \<open>
  Modelled from the spec: the constructor \<open>action::slide\<close> of \<open>action.h\<close>, applied to the
  \<open>int\<close> the agent passes. The direction codes 0, 1, 2, 3 are read as up, right, down,
  left: the code of a direction gives the slide in that direction, and any other code,
  which names no direction, gives the null action.
\<close>

definition action_slide :: "int \<Rightarrow> action" where
  "action_slide op =
     (if op = 0 then Slide Up
      else if op = 1 then Slide Right
      else if op = 2 then Slide Down
      else if op = 3 then Slide Left
      else NoAction)"

text \<open>
  A weight table is indexed by a feature index; the network is the vector \<open>net\<close> of
  tables.
\<close>

type_synonym weight = "nat \<Rightarrow> real"
type_synonym network = "weight list"

section \<open>Feature extraction\<close>

definition extract_feature :: "board \<Rightarrow> nat \<Rightarrow> nat \<Rightarrow> nat \<Rightarrow> nat \<Rightarrow> nat \<Rightarrow> nat" where
  "extract_feature b p1 p2 p3 p4 p5 =
     b ! p1 * 31 * 31 * 31 * 31 + b ! p2 * 31 * 31 * 31 + b ! p3 * 31 * 31 + b ! p4 * 31 + b ! p5"

definition extract_feature2 :: "board \<Rightarrow> nat \<Rightarrow> nat \<Rightarrow> nat \<Rightarrow> nat \<Rightarrow> nat" where
  "extract_feature2 b p1 p2 p3 p4 =
     b ! p1 * 31 * 31 * 31 + b ! p2 * 31 * 31 + b ! p3 * 31 + b ! p4"

text \<open>
  The earlier agent source (\<open>agent.h\<close>) has the same five-cell function in base 25.
\<close>

definition extract_feature_25 :: "board \<Rightarrow> nat \<Rightarrow> nat \<Rightarrow> nat \<Rightarrow> nat \<Rightarrow> nat \<Rightarrow> nat" where
  "extract_feature_25 b p1 p2 p3 p4 p5 =
     b ! p1 * 25 * 25 * 25 * 25 + b ! p2 * 25 * 25 * 25 + b ! p3 * 25 * 25 + b ! p4 * 25 + b ! p5"

text \<open>
  The feature indices that \<open>estimate_value\<close> and \<open>adjust_value\<close> compute, in the order of
  their 32 statements: entry \<open>k\<close> is the index used with table \<open>net[k]\<close>.
\<close>

definition features :: "board \<Rightarrow> nat list" where
  "features b =
    [extract_feature b 0 1 2 3 4,
     extract_feature b 5 6 7 10 11,
     extract_feature b 8 9 12 13 14,
     extract_feature b 0 1 2 3 7,
     extract_feature b 4 5 6 8 9,
     extract_feature b 10 11 13 14 15,
     extract_feature b 1 2 3 6 7,
     extract_feature b 4 5 8 9 10,
     extract_feature b 11 12 13 14 15,
     extract_feature b 0 1 2 4 5,
     extract_feature b 6 7 9 10 11,
     extract_feature b 8 12 13 14 15,
     extract_feature b 0 4 8 12 13,
     extract_feature b 1 2 5 6 9,
     extract_feature b 7 10 11 14 15,
     extract_feature b 0 1 4 8 12,
     extract_feature b 5 9 10 13 14,
     extract_feature b 2 3 6 7 11,
     extract_feature b 2 3 7 11 15,
     extract_feature b 6 9 10 13 14,
     extract_feature b 0 1 4 5 8,
     extract_feature b 3 7 11 14 15,
     extract_feature b 1 2 5 6 10,
     extract_feature b 4 8 9 12 13,
     extract_feature2 b 0 1 2 3,
     extract_feature2 b 4 5 6 7,
     extract_feature2 b 8 9 10 11,
     extract_feature2 b 12 13 14 15,
     extract_feature2 b 0 4 8 12,
     extract_feature2 b 1 5 9 13,
     extract_feature2 b 2 6 10 14,
     extract_feature2 b 3 7 11 15]"

section \<open>The slide of a board\<close>

text \<open>
  Modelled from the spec: the slide of \<open>board.h\<close>, which is not among the sources. Each of
  the four lines along the direction is compressed toward the edge in that direction,
  adjacent equal exponents are merged from that edge on into one cell of the exponent plus
  one, each merge adding 2 to the power of the new exponent to the reward, and the line is
  compressed again. The result is the sum of the four rewards, or -1 with the board
  unchanged when no cell changes. The direction codes 0, 1, 2, 3 are read as up, right,
  down, left.

  The agent's functions below take the slide as a parameter, so what is proved about them
  holds for every slide function; \<open>board_slide\<close> is used at concrete boards only.
\<close>

fun merge_line :: "cell list \<Rightarrow> cell list \<times> int" where
  "merge_line (x # y # xs) =
     (if x = y then (case merge_line xs of (r, s) \<Rightarrow> (Suc x # r, 2 ^ Suc x + s))
      else (case merge_line (y # xs) of (r, s) \<Rightarrow> (x # r, s)))"
| "merge_line xs = (xs, 0)"

definition slide_line :: "cell list \<Rightarrow> cell list \<times> int" where
  "slide_line line =
     (case merge_line (filter (\<lambda>c. c \<noteq> 0) line) of
        (r, s) \<Rightarrow> (r @ replicate (length line - length r) 0, s))"

definition transpose_board :: "board \<Rightarrow> board" where
  "transpose_board b = map (\<lambda>i. b ! (4 * (i mod 4) + i div 4)) [0..<16]"

definition reflect_board :: "board \<Rightarrow> board" where
  "reflect_board b = map (\<lambda>i. b ! (4 * (i div 4) + (3 - i mod 4))) [0..<16]"

definition slide_left :: "board \<Rightarrow> board \<times> int" where
  "slide_left b =
     (let ls = map slide_line [take 4 b, take 4 (drop 4 b), take 4 (drop 8 b), take 4 (drop 12 b)]
      in (concat (map fst ls), sum_list (map snd ls)))"

definition slide_toward :: "board \<Rightarrow> int \<Rightarrow> board \<times> int" where
  "slide_toward b op =
     (if op = 0 then (case slide_left (transpose_board b) of (c, r) \<Rightarrow> (transpose_board c, r))
      else if op = 1 then (case slide_left (reflect_board b) of (c, r) \<Rightarrow> (reflect_board c, r))
      else if op = 2 then
        (case slide_left (reflect_board (transpose_board b)) of
           (c, r) \<Rightarrow> (transpose_board (reflect_board c), r))
      else if op = 3 then slide_left b
      else (b, 0))"

definition board_slide :: "board \<Rightarrow> int \<Rightarrow> int \<times> board" where
  "board_slide b op = (case slide_toward b op of (c, r) \<Rightarrow> if c = b then (-1, b) else (r, c))"

section \<open>The random environment\<close>

text \<open>
  \<open>rndenv::take_action\<close> shuffles its array \<open>space\<close> and draws \<open>popup\<close> from 0 to 9.
  The random engine is outside the model: the shuffled array and the number drawn are
  arguments. The loop returns at the first position of the array whose cell is empty.
\<close>

fun rndenv_take_action :: "nat list \<Rightarrow> nat \<Rightarrow> board \<Rightarrow> action" where
  "rndenv_take_action [] popup b = NoAction"
| "rndenv_take_action (pos # space) popup b =
     (if b ! pos \<noteq> 0 then rndenv_take_action space popup b
      else Place pos (if popup \<noteq> 0 then 1 else 2))"

section \<open>The TD player\<close>

record step =
  reward :: int
  after :: board

text \<open>
  The members of \<open>TD_player\<close> that its methods read or write: the weight tables, the
  learning rate, the episode history and the horizon. The horizon is an \<open>int\<close> in the
  source; a negative horizon indexes the history out of range and is not modelled.
\<close>

record TD_player =
  net :: network
  alpha :: real
  history :: "step list"
  n_step :: nat

definition opcode :: "int list" where
  "opcode = [0, 1, 2, 3]"

text \<open>The largest finite \<open>float\<close>, \<open>std::numeric_limits<float>::max()\<close>.\<close>

definition flt_max :: real where
  "flt_max = (2 ^ 24 - 1) * 2 ^ 104"

subsection \<open>The value function\<close>

text \<open>
  \<open>estimate_value\<close> adds the 32 selected weights to \<open>0.0\<close>, table 0 first.
\<close>

definition estimate_value :: "TD_player \<Rightarrow> board \<Rightarrow> real" where
  "estimate_value st b =
     foldl (\<lambda>value k. value + (net st ! k) (features b ! k)) 0 [0..<32]"

text \<open>
  \<open>adjust_value\<close> computes the adjustment once, from the weights before the call, and then
  runs the 32 statements \<open>net[k][index] += adjust\<close> in order (\<open>bump\<close> is one of them).
  Its target is an \<open>int\<close>.
\<close>

definition bump :: "board \<Rightarrow> real \<Rightarrow> network \<Rightarrow> nat \<Rightarrow> network" where
  "bump b adjust w k = w[k := (w ! k)(features b ! k := (w ! k) (features b ! k) + adjust)]"

definition adjust_value :: "TD_player \<Rightarrow> board \<Rightarrow> int \<Rightarrow> TD_player" where
  "adjust_value st b target =
     (let cur = estimate_value st b;
          err = of_int target - cur;
          adjust = alpha st * err
      in st\<lparr>net := foldl (bump b adjust) (net st) [0..<32]\<rparr>)"

subsection \<open>Looking one tile ahead\<close>

definition empty_tile :: "board \<Rightarrow> nat list" where
  "empty_tile b = filter (\<lambda>i. b ! i = 0) [0..<16]"

text \<open>
  One round of the inner loop of \<open>expect_value\<close> over the directions: the pair is
  \<open>(best_reward, best_value)\<close>.
\<close>

definition respond ::
  "(board \<Rightarrow> int \<Rightarrow> int \<times> board) \<Rightarrow> TD_player \<Rightarrow> board \<Rightarrow> int \<times> real \<Rightarrow> int \<Rightarrow> int \<times> real" where
  "respond slide st state best op =
     (case best of (best_reward, best_value) \<Rightarrow>
        (case slide state op of (reward1, after1) \<Rightarrow>
           if reward1 < 0 then best
           else let value1 = estimate_value st after1
                in if of_int reward1 + value1 > of_int best_reward + best_value
                   then (reward1, value1) else best))"

definition best_response ::
  "(board \<Rightarrow> int \<Rightarrow> int \<times> board) \<Rightarrow> TD_player \<Rightarrow> board \<Rightarrow> int \<times> real" where
  "best_response slide st state = foldl (respond slide st state) (-1, - flt_max) opcode"

text \<open>
  \<open>expect_value\<close>: for every empty cell, the best response to a 1-tile and to a 2-tile
  placed there. The constants \<open>float(0.9)\<close> and \<open>float(0.1)\<close> are taken as 9/10 and 1/10.
\<close>

definition expect_value :: "(board \<Rightarrow> int \<Rightarrow> int \<times> board) \<Rightarrow> TD_player \<Rightarrow> board \<Rightarrow> real" where
  "expect_value slide st b =
     (let num_empty = length (empty_tile b)
      in foldl (\<lambda>value i.
           (case best_response slide st (b[i := 1]) of (best_reward1, best_value1) \<Rightarrow>
            case best_response slide st (b[i := 2]) of (best_reward2, best_value2) \<Rightarrow>
              value + (9 / 10 * best_value1) / real num_empty
                    + (1 / 10 * best_value2) / real num_empty))
         0 (empty_tile b))"

subsection \<open>Choosing a move\<close>

text \<open>
  One round of the loop of \<open>take_action\<close>: the tuple is
  \<open>(best_op, best_reward, best_value, best_after)\<close>.
\<close>

definition try_op ::
  "(board \<Rightarrow> int \<Rightarrow> int \<times> board) \<Rightarrow> TD_player \<Rightarrow> board \<Rightarrow>
     int \<times> int \<times> real \<times> board \<Rightarrow> int \<Rightarrow> int \<times> int \<times> real \<times> board" where
  "try_op slide st before best op =
     (case best of (best_op, best_reward, best_value, best_after) \<Rightarrow>
        (case slide before op of (rew, aft) \<Rightarrow>
           if rew < 0 then best
           else let value = expect_value slide st aft
                in if of_int rew + value > of_int best_reward + best_value
                   then (op, rew, value, aft) else best))"

text \<open>
  \<open>take_action\<close> returns the action and the player with its history; \<open>best_after\<close> starts
  as a default board, taken to be the empty one.
\<close>

definition take_action ::
  "(board \<Rightarrow> int \<Rightarrow> int \<times> board) \<Rightarrow> TD_player \<Rightarrow> board \<Rightarrow> action \<times> TD_player" where
  "take_action slide st before =
     (case foldl (try_op slide st before) (-1, -1, - flt_max, replicate 16 0) opcode of
        (best_op, best_reward, best_value, best_after) \<Rightarrow>
          (action_slide best_op,
           if best_op \<noteq> -1
           then st\<lparr>history := history st @ [\<lparr>reward = best_reward, after = best_after\<rparr>]\<rparr>
           else st))"

subsection \<open>Episodes\<close>

definition open_episode :: "TD_player \<Rightarrow> TD_player" where
  "open_episode st = st\<lparr>history := []\<rparr>"

text \<open>
  The conversion of a \<open>float\<close> to the \<open>int\<close> parameter of \<open>adjust_value\<close> drops the
  fraction (values outside the range of \<open>int\<close> are not modelled).
\<close>

definition float_to_int :: "real \<Rightarrow> int" where
  "float_to_int x = (if 0 \<le> x then \<lfloor>x\<rfloor> else \<lceil>x\<rceil>)"

text \<open>
  The inner loop of \<open>close_episode\<close> adds the rewards of the steps \<open>i + 1\<close> to
  \<open>i + n_step\<close> and breaks at the end of the history.
\<close>

definition total_reward :: "TD_player \<Rightarrow> nat \<Rightarrow> int" where
  "total_reward st i =
     foldl (\<lambda>total j. total + reward (history st ! (i + j))) 0
       (takeWhile (\<lambda>j. \<not> i + j \<ge> length (history st)) [1..<Suc (n_step st)])"

text \<open>The body of the outer loop of \<open>close_episode\<close>, for the step \<open>i\<close>.\<close>

definition close_step :: "TD_player \<Rightarrow> nat \<Rightarrow> TD_player" where
  "close_step st i =
     (if i + n_step st \<ge> length (history st)
      then adjust_value st (after (history st ! i)) (total_reward st i)
      else adjust_value st (after (history st ! i))
             (float_to_int (of_int (total_reward st i)
                + estimate_value st (after (history st ! (i + n_step st))))))"

definition close_episode :: "TD_player \<Rightarrow> TD_player" where
  "close_episode st =
     (if length (history st) = 0 then st
      else if alpha st = 0 then st
      else foldl close_step (adjust_value st (after (last (history st))) 0)
             (rev [0..<length (history st) - 1]))"

section \<open>The base-31 decomposition\<close>

text \<open>
  Base-31 positional decomposition of an index into \<open>k\<close> digits, most significant first.
\<close>

fun base31_digits :: "nat \<Rightarrow> nat \<Rightarrow> nat list" where
  "base31_digits 0 x = []"
| "base31_digits (Suc k) x = base31_digits k (x div 31) @ [x mod 31]"

section \<open>The specification's reading of the agent\<close>




text \<open>
  \<open>close_episode\<close> as described: every step is adjusted toward the sum of rewards plus the
  estimate itself, a real number. \<open>adjust_toward\<close> is \<open>adjust_value\<close> with a real target.
\<close>

definition adjust_toward :: "TD_player \<Rightarrow> board \<Rightarrow> real \<Rightarrow> TD_player" where
  "adjust_toward st b target =
     st\<lparr>net := foldl (bump b (alpha st * (target - estimate_value st b))) (net st) [0..<32]\<rparr>"

definition claimed_close_step :: "TD_player \<Rightarrow> nat \<Rightarrow> TD_player" where
  "claimed_close_step st i =
     (if i + n_step st \<ge> length (history st)
      then adjust_toward st (after (history st ! i)) (of_int (total_reward st i))
      else adjust_toward st (after (history st ! i))
             (of_int (total_reward st i)
                + estimate_value st (after (history st ! (i + n_step st)))))"

definition claimed_close_episode :: "TD_player \<Rightarrow> TD_player" where
  "claimed_close_episode st =
     foldl claimed_close_step (adjust_toward st (after (last (history st))) 0)
       (rev [0..<length (history st) - 1])"

section \<open>Auxiliary notions\<close>

text \<open>
  The two loops over the directions keep the candidate with the largest key, the first one
  among equals. A direction yields a candidate when its slide is legal.
\<close>

definition try_cand ::
  "(board \<Rightarrow> int \<Rightarrow> int \<times> board) \<Rightarrow> TD_player \<Rightarrow> board \<Rightarrow> int \<Rightarrow> (int \<times> int \<times> real \<times> board) option" where
  "try_cand slide st before op =
     (if fst (slide before op) < 0 then None
      else Some (op, fst (slide before op), expect_value slide st (snd (slide before op)),
                 snd (slide before op)))"

definition try_key :: "int \<times> int \<times> real \<times> board \<Rightarrow> real" where
  "try_key best = of_int (fst (snd best)) + fst (snd (snd best))"



section \<open>Concrete boards and players\<close>

text \<open>
  \<open>example_board\<close> can slide right and left only, each with reward 4; \<open>example_after\<close> is
  its slide to the left, and \<open>example_after2\<close> the slide to the left once more after a
  1-tile has appeared in cell 3. No slide moves \<open>dead_board\<close>, and \<open>full_board\<close> has
  no empty cell.
\<close>

definition example_board :: board where
  "example_board = [1, 1, 2, 3, 4, 5, 6, 7, 8, 9, 10, 11, 12, 13, 14, 15]"

definition example_after :: board where
  "example_after = [2, 2, 3, 0, 4, 5, 6, 7, 8, 9, 10, 11, 12, 13, 14, 15]"

definition example_after2 :: board where
  "example_after2 = [3, 3, 1, 0, 4, 5, 6, 7, 8, 9, 10, 11, 12, 13, 14, 15]"


definition full_board :: board where
  "full_board = [1, 2, 3, 4, 5, 6, 7, 8, 9, 10, 11, 12, 13, 14, 15, 16]"

text \<open>
  A permutation of the positions, as \<open>std::shuffle\<close> may leave the array \<open>space\<close>.
\<close>

definition shuffled_space :: "nat list" where
  "shuffled_space = [7, 3, 12, 0, 15, 9, 4, 1, 14, 6, 11, 2, 8, 13, 5, 10]"

text \<open>
  \<open>example_player\<close> has 32 tables of zeros. \<open>trained_player\<close> has all weights 1/64 and
  a history of two steps, the two slides to the left above.
\<close>

definition example_player :: TD_player where
  "example_player = \<lparr>net = replicate 32 (\<lambda>i. 0), alpha = 1 / 64, history = [], n_step = 1\<rparr>"

definition trained_player :: TD_player where
  "trained_player =
     \<lparr>net = replicate 32 (\<lambda>i. 1 / 64), alpha = 1 / 64,
      history = [\<lparr>reward = 4, after = example_after\<rparr>, \<lparr>reward = 8, after = example_after2\<rparr>],
      n_step = 1\<rparr>"

section \<open>Binary32 arithmetic\<close>

text \<open>
  A \<open>float\<close> is a finite real, an infinity or NaN; the sign of zero is not kept, which
  only a division by zero could tell. Every operation gives the exact result rounded to
  binary32, to nearest with ties to even: \<open>expo\<close> is the exponent of the binade (that of
  the subnormals below \<open>2 powi (- 126)\<close>), a result is a multiple of
  \<open>2 powi (expo x - 23)\<close>, and one beyond \<open>flt_max\<close> is an infinity. Expressions are
  taken to be evaluated in \<open>float\<close>, not in a wider format.
\<close>

datatype float32 = Fin real | PInf | NInf | NaN

definition expo :: "real \<Rightarrow> int" where
  "expo x = (if \<bar>x\<bar> < 2 powi (- 126) then - 126 else \<lfloor>log 2 \<bar>x\<bar>\<rfloor>)"

definition nearest_even :: "real \<Rightarrow> int" where
  "nearest_even k =
     (let n = \<lfloor>k\<rfloor>; d = k - of_int n
      in if d < 1 / 2 then n else if 1 / 2 < d then n + 1 else if even n then n else n + 1)"

definition round32 :: "real \<Rightarrow> float32" where
  "round32 x =
     (let q = 2 powi (expo x - 23); y = of_int (nearest_even (x / q)) * q
      in if flt_max < y then PInf else if y < - flt_max then NInf else Fin y)"

fun fadd :: "float32 \<Rightarrow> float32 \<Rightarrow> float32" where
  "fadd (Fin x) (Fin y) = round32 (x + y)"
| "fadd NaN b = NaN"
| "fadd a NaN = NaN"
| "fadd PInf NInf = NaN"
| "fadd NInf PInf = NaN"
| "fadd PInf b = PInf"
| "fadd NInf b = NInf"
| "fadd a PInf = PInf"
| "fadd a NInf = NInf"

fun fmul :: "float32 \<Rightarrow> float32 \<Rightarrow> float32" where
  "fmul (Fin x) (Fin y) = round32 (x * y)"
| "fmul NaN b = NaN"
| "fmul a NaN = NaN"
| "fmul PInf (Fin y) = (if y = 0 then NaN else if 0 < y then PInf else NInf)"
| "fmul NInf (Fin y) = (if y = 0 then NaN else if 0 < y then NInf else PInf)"
| "fmul (Fin x) PInf = (if x = 0 then NaN else if 0 < x then PInf else NInf)"
| "fmul (Fin x) NInf = (if x = 0 then NaN else if 0 < x then NInf else PInf)"
| "fmul PInf PInf = PInf"
| "fmul PInf NInf = NInf"
| "fmul NInf PInf = NInf"
| "fmul NInf NInf = PInf"

fun fdiv :: "float32 \<Rightarrow> float32 \<Rightarrow> float32" where
  "fdiv (Fin x) (Fin y) =
     (if y = 0 then (if x = 0 then NaN else if 0 < x then PInf else NInf) else round32 (x / y))"
| "fdiv NaN b = NaN"
| "fdiv a NaN = NaN"
| "fdiv PInf (Fin y) = (if 0 \<le> y then PInf else NInf)"
| "fdiv NInf (Fin y) = (if 0 \<le> y then NInf else PInf)"
| "fdiv (Fin x) b = Fin 0"
| "fdiv a b = NaN"

text \<open>
  The comparison \<open>a > b\<close>, false whenever NaN is involved.
\<close>

fun fgt :: "float32 \<Rightarrow> float32 \<Rightarrow> bool" where
  "fgt (Fin x) (Fin y) = (y < x)"
| "fgt NaN b = False"
| "fgt a NaN = False"
| "fgt PInf PInf = False"
| "fgt PInf b = True"
| "fgt a PInf = False"
| "fgt NInf b = False"
| "fgt a NInf = True"

text \<open>
  The conversion of an \<open>int\<close>, and the constants \<open>float(0.9)\<close> (0x3F666666) and
  \<open>float(0.1)\<close> (0x3DCCCCCD).
\<close>

definition of_int32 :: "int \<Rightarrow> float32" where
  "of_int32 r = round32 (of_int r)"

definition float_0_9 :: float32 where
  "float_0_9 = Fin (15099494 / 2 ^ 24)"

definition float_0_1 :: float32 where
  "float_0_1 = Fin (13421773 / 2 ^ 27)"

section \<open>The search of the TD player in binary32\<close>

text \<open>
  \<open>estimate_value\<close>, \<open>expect_value\<close> and \<open>take_action\<close> once more, statement by
  statement as above, with the weights, the values and their sums and comparisons in
  binary32. The weight tables and the history are passed as arguments; \<open>take_action32\<close>
  returns the action and the history.
\<close>

type_synonym network32 = "(nat \<Rightarrow> float32) list"

definition estimate_value32 :: "network32 \<Rightarrow> board \<Rightarrow> float32" where
  "estimate_value32 w b =
     foldl (\<lambda>value k. fadd value ((w ! k) (features b ! k))) (Fin 0) [0..<32]"

definition respond32 ::
  "(board \<Rightarrow> int \<Rightarrow> int \<times> board) \<Rightarrow> network32 \<Rightarrow> board \<Rightarrow> int \<times> float32 \<Rightarrow> int \<Rightarrow>
     int \<times> float32" where
  "respond32 slide w state best op =
     (case best of (best_reward, best_value) \<Rightarrow>
        (case slide state op of (reward1, after1) \<Rightarrow>
           if reward1 < 0 then best
           else let value1 = estimate_value32 w after1
                in if fgt (fadd (of_int32 reward1) value1) (fadd (of_int32 best_reward) best_value)
                   then (reward1, value1) else best))"

definition best_response32 ::
  "(board \<Rightarrow> int \<Rightarrow> int \<times> board) \<Rightarrow> network32 \<Rightarrow> board \<Rightarrow> int \<times> float32" where
  "best_response32 slide w state = foldl (respond32 slide w state) (- 1, Fin (- flt_max)) opcode"

definition expect_value32 ::
  "(board \<Rightarrow> int \<Rightarrow> int \<times> board) \<Rightarrow> network32 \<Rightarrow> board \<Rightarrow> float32" where
  "expect_value32 slide w b =
     (let num_empty = int (length (empty_tile b))
      in foldl (\<lambda>value i.
           (case best_response32 slide w (b[i := 1]) of (best_reward1, best_value1) \<Rightarrow>
            case best_response32 slide w (b[i := 2]) of (best_reward2, best_value2) \<Rightarrow>
              fadd (fadd value (fdiv (fmul float_0_9 best_value1) (of_int32 num_empty)))
                (fdiv (fmul float_0_1 best_value2) (of_int32 num_empty))))
         (Fin 0) (empty_tile b))"

definition try_op32 ::
  "(board \<Rightarrow> int \<Rightarrow> int \<times> board) \<Rightarrow> network32 \<Rightarrow> board \<Rightarrow>
     int \<times> int \<times> float32 \<times> board \<Rightarrow> int \<Rightarrow> int \<times> int \<times> float32 \<times> board" where
  "try_op32 slide w before best op =
     (case best of (best_op, best_reward, best_value, best_after) \<Rightarrow>
        (case slide before op of (rew, aft) \<Rightarrow>
           if rew < 0 then best
           else let value = expect_value32 slide w aft
                in if fgt (fadd (of_int32 rew) value) (fadd (of_int32 best_reward) best_value)
                   then (op, rew, value, aft) else best))"

definition take_action32 ::
  "(board \<Rightarrow> int \<Rightarrow> int \<times> board) \<Rightarrow> network32 \<Rightarrow> step list \<Rightarrow> board \<Rightarrow>
     action \<times> step list" where
  "take_action32 slide w hist before =
     (case foldl (try_op32 slide w before) (- 1, - 1, Fin (- flt_max), replicate 16 0) opcode of
        (best_op, best_reward, best_value, best_after) \<Rightarrow>
          (action_slide best_op,
           if best_op \<noteq> - 1
           then hist @ [\<lparr>reward = best_reward, after = best_after\<rparr>]
           else hist))"

text \<open>
  The score of a direction in \<open>take_action\<close>: the \<open>float\<close> sum \<open>reward + value\<close>.
\<close>

definition score32 ::
  "(board \<Rightarrow> int \<Rightarrow> int \<times> board) \<Rightarrow> network32 \<Rightarrow> board \<Rightarrow> int \<Rightarrow> float32" where
  "score32 slide w before op =
     fadd (of_int32 (fst (slide before op))) (expect_value32 slide w (snd (slide before op)))"

text \<open>
  The candidates and the key of the loop of \<open>take_action32\<close>.
\<close>

definition try_cand32 ::
  "(board \<Rightarrow> int \<Rightarrow> int \<times> board) \<Rightarrow> network32 \<Rightarrow> board \<Rightarrow> int \<Rightarrow>
     (int \<times> int \<times> float32 \<times> board) option" where
  "try_cand32 slide w before op =
     (if fst (slide before op) < 0 then None
      else Some (op, fst (slide before op), expect_value32 slide w (snd (slide before op)),
                 snd (slide before op)))"

definition try_key32 :: "int \<times> int \<times> float32 \<times> board \<Rightarrow> float32" where
  "try_key32 best = fadd (of_int32 (fst (snd best))) (fst (snd (snd best)))"

text \<open>
  Weight tables of NaN, tables of \<open>- flt_max\<close>, whose sums overflow, and tables of
  zeros but for one weight 100, at the index of the first row 3, 4, 5, 3 in table 24.
  \<open>open_board\<close> can slide up and left and keeps two empty cells; \<open>tie_board\<close> can slide
  up, to \<open>tie_up\<close>, and left, to \<open>tie_left\<close>, and a 1-tile in the cell left empty ends the
  game in both.
\<close>

definition nan_net :: network32 where
  "nan_net = replicate 32 (\<lambda>i. NaN)"

definition flood_net :: network32 where
  "flood_net = replicate 32 (\<lambda>i. Fin (- flt_max))"

definition sparse_net :: network32 where
  "sparse_net = (replicate 32 (\<lambda>i. Fin 0))[24 := (\<lambda>i. if i = 93375 then Fin 100 else Fin 0)]"

definition open_board :: board where
  "open_board = [0, 0, 2, 3, 4, 5, 6, 7, 8, 9, 10, 11, 12, 13, 14, 15]"

definition tie_board :: board where
  "tie_board = [0, 3, 4, 5, 6, 7, 8, 2, 10, 11, 12, 13, 14, 2, 16, 17]"

definition tie_up :: board where
  "tie_up = [6, 3, 4, 5, 10, 7, 8, 2, 14, 11, 12, 13, 0, 2, 16, 17]"

definition tie_left :: board where
  "tie_left = [3, 4, 5, 0, 6, 7, 8, 2, 10, 11, 12, 13, 14, 2, 16, 17]"

section \<open>Feature indices are base-31 numerals\<close>

lemma extract_feature_horner:
  "extract_feature b p1 p2 p3 p4 p5 =
     (((b ! p1 * 31 + b ! p2) * 31 + b ! p3) * 31 + b ! p4) * 31 + b ! p5"
  unfolding extract_feature_def by simp

lemma extract_feature2_horner:
  "extract_feature2 b p1 p2 p3 p4 = ((b ! p1 * 31 + b ! p2) * 31 + b ! p3) * 31 + b ! p4"
  unfolding extract_feature2_def by simp

lemma digit31_div: "d < (31::nat) \<Longrightarrow> (q * 31 + d) div 31 = q"
  by simp

lemma digit31_mod: "d < (31::nat) \<Longrightarrow> (q * 31 + d) mod 31 = d"
  by simp

lemma base31_digits_5:
  "base31_digits 5 x =
     [x div 31 div 31 div 31 div 31 mod 31, x div 31 div 31 div 31 mod 31,
      x div 31 div 31 mod 31, x div 31 mod 31, x mod 31]"
proof -
  have "(5::nat) = Suc (Suc (Suc (Suc (Suc 0))))"
    by simp
  then show ?thesis
    by (simp only: base31_digits.simps append.simps)
qed

lemma base31_digits_4:
  "base31_digits 4 x =
     [x div 31 div 31 div 31 mod 31, x div 31 div 31 mod 31, x div 31 mod 31, x mod 31]"
proof -
  have "(4::nat) = Suc (Suc (Suc (Suc 0)))"
    by simp
  then show ?thesis
    by (simp only: base31_digits.simps append.simps)
qed

lemma extract_feature_digits:
  assumes "b ! p1 < 31" "b ! p2 < 31" "b ! p3 < 31" "b ! p4 < 31" "b ! p5 < 31"
  shows "base31_digits 5 (extract_feature b p1 p2 p3 p4 p5) =
           [b ! p1, b ! p2, b ! p3, b ! p4, b ! p5]"
  unfolding base31_digits_5 extract_feature_horner
  using assms by (simp only: digit31_div digit31_mod mod_less)

lemma extract_feature2_digits:
  assumes "b ! p1 < 31" "b ! p2 < 31" "b ! p3 < 31" "b ! p4 < 31"
  shows "base31_digits 4 (extract_feature2 b p1 p2 p3 p4) = [b ! p1, b ! p2, b ! p3, b ! p4]"
  unfolding base31_digits_4 extract_feature2_horner
  using assms by (simp only: digit31_div digit31_mod mod_less)

text \<open>
  C6. On boards whose exponents at the cells of a tuple are all below 31, the base-31
  decomposition of the feature index gives back the exponents of the tuple's cells, first
  cell as most significant digit, and two boards have the same index exactly when they
  agree on every cell of the tuple, so boards that differ at a cell of the tuple have
  different indices. This holds for the five-cell and for the four-cell index function.
\<close>

theorem feature_index_base31_injective:
  assumes "\<forall>p \<in> {p1, p2, p3, p4, p5}. b ! p < 31 \<and> b' ! p < 31"
  shows "base31_digits 5 (extract_feature b p1 p2 p3 p4 p5) =
           [b ! p1, b ! p2, b ! p3, b ! p4, b ! p5] \<and>
         (extract_feature b p1 p2 p3 p4 p5 = extract_feature b' p1 p2 p3 p4 p5 \<longleftrightarrow>
            [b ! p1, b ! p2, b ! p3, b ! p4, b ! p5] = [b' ! p1, b' ! p2, b' ! p3, b' ! p4, b' ! p5]) \<and>
         base31_digits 4 (extract_feature2 b p1 p2 p3 p4) = [b ! p1, b ! p2, b ! p3, b ! p4] \<and>
         (extract_feature2 b p1 p2 p3 p4 = extract_feature2 b' p1 p2 p3 p4 \<longleftrightarrow>
            [b ! p1, b ! p2, b ! p3, b ! p4] = [b' ! p1, b' ! p2, b' ! p3, b' ! p4])"
proof -
  from assms have lt: "b ! p1 < 31" "b ! p2 < 31" "b ! p3 < 31" "b ! p4 < 31" "b ! p5 < 31"
    and lt': "b' ! p1 < 31" "b' ! p2 < 31" "b' ! p3 < 31" "b' ! p4 < 31" "b' ! p5 < 31"
    by simp_all
  note d5 = extract_feature_digits [OF lt] and d5' = extract_feature_digits [OF lt']
  note d4 = extract_feature2_digits [OF lt(1-4)] and d4' = extract_feature2_digits [OF lt'(1-4)]
  have "extract_feature b p1 p2 p3 p4 p5 = extract_feature b' p1 p2 p3 p4 p5 \<longleftrightarrow>
      [b ! p1, b ! p2, b ! p3, b ! p4, b ! p5] = [b' ! p1, b' ! p2, b' ! p3, b' ! p4, b' ! p5]"
  proof
    assume "extract_feature b p1 p2 p3 p4 p5 = extract_feature b' p1 p2 p3 p4 p5"
    then have "base31_digits 5 (extract_feature b p1 p2 p3 p4 p5) =
               base31_digits 5 (extract_feature b' p1 p2 p3 p4 p5)"
      by simp
    then show "[b ! p1, b ! p2, b ! p3, b ! p4, b ! p5] = [b' ! p1, b' ! p2, b' ! p3, b' ! p4, b' ! p5]"
      by (simp only: d5 d5')
  next
    assume "[b ! p1, b ! p2, b ! p3, b ! p4, b ! p5] = [b' ! p1, b' ! p2, b' ! p3, b' ! p4, b' ! p5]"
    then show "extract_feature b p1 p2 p3 p4 p5 = extract_feature b' p1 p2 p3 p4 p5"
      by (simp add: extract_feature_def)
  qed
  moreover have "extract_feature2 b p1 p2 p3 p4 = extract_feature2 b' p1 p2 p3 p4 \<longleftrightarrow>
      [b ! p1, b ! p2, b ! p3, b ! p4] = [b' ! p1, b' ! p2, b' ! p3, b' ! p4]"
  proof
    assume "extract_feature2 b p1 p2 p3 p4 = extract_feature2 b' p1 p2 p3 p4"
    then have "base31_digits 4 (extract_feature2 b p1 p2 p3 p4) =
               base31_digits 4 (extract_feature2 b' p1 p2 p3 p4)"
      by simp
    then show "[b ! p1, b ! p2, b ! p3, b ! p4] = [b' ! p1, b' ! p2, b' ! p3, b' ! p4]"
      by (simp only: d4 d4')
  next
    assume "[b ! p1, b ! p2, b ! p3, b ! p4] = [b' ! p1, b' ! p2, b' ! p3, b' ! p4]"
    then show "extract_feature2 b p1 p2 p3 p4 = extract_feature2 b' p1 p2 p3 p4"
      by (simp add: extract_feature2_def)
  qed
  ultimately show ?thesis
    using d5 d4 by simp
qed

text \<open>
  An instance: the first five cells of \<open>example_board\<close> and \<open>example_after\<close>.
\<close>

theorem feature_index_base31_injective_witness:
  "example_board ! 4 < 31 \<and> example_after ! 4 < 31 \<and>
   base31_digits 5 (extract_feature example_board 0 1 2 3 4) = [1, 1, 2, 3, 4] \<and>
   extract_feature example_board 0 1 2 3 4 \<noteq> extract_feature example_after 0 1 2 3 4 \<and>
   base31_digits 4 (extract_feature2 example_board 0 1 2 3) = [1, 1, 2, 3] \<and>
   extract_feature2 example_board 0 1 2 3 \<noteq> extract_feature2 example_after 0 1 2 3"
proof -
  have h: "\<forall>p \<in> {0, 1, 2, 3, 4}. example_board ! p < 31 \<and> example_after ! p < 31"
    by (simp add: example_board_def example_after_def)
  show ?thesis
    using feature_index_base31_injective [OF h]
    by (simp add: example_board_def example_after_def)
qed

text \<open>
  In base 25, as in the earlier source, exponents from 25 on collide.
\<close>

lemma extract_feature_25_collision:
  "extract_feature_25 [0, 0, 0, 1, 0, 0, 0, 0, 0, 0, 0, 0, 0, 0, 0, 0] 0 1 2 3 4 =
   extract_feature_25 [0, 0, 0, 0, 25, 0, 0, 0, 0, 0, 0, 0, 0, 0, 0, 0] 0 1 2 3 4"
  by (simp add: extract_feature_25_def)

section \<open>Estimating and adjusting\<close>

lemma foldl_add_sum:
  "foldl (\<lambda>value k. value + f k) a [i..<j] = a + (\<Sum>k = i..<j. (f k :: real))"
proof (induction j)
  case 0
  show ?case by simp
next
  case (Suc j)
  show ?case
  proof (cases "i \<le> j")
    case True
    then show ?thesis using Suc by (simp add: sum.atLeastLessThan_Suc)
  next
    case False
    then show ?thesis by simp
  qed
qed

lemma estimate_value_sum:
  "estimate_value st b = (\<Sum>k = 0..<32. (net st ! k) (features b ! k))"
  unfolding estimate_value_def by (simp add: foldl_add_sum)

lemma length_bump [simp]: "length (bump b adjust w k) = length w"
  by (simp add: bump_def)

lemma foldl_bump_length [simp]: "length (foldl (bump b adjust) w ks) = length w"
  by (induction ks arbitrary: w) simp_all

lemma bump_nth:
  "k < length w \<Longrightarrow> bump b adjust w k ! j =
     (if j = k then (w ! k)(features b ! k := (w ! k) (features b ! k) + adjust) else w ! j)"
  by (simp add: bump_def nth_list_update)

lemma foldl_bump_nth:
  assumes "n \<le> length w"
  shows "foldl (bump b adjust) w [0..<n] ! k =
           (if k < n then (w ! k)(features b ! k := (w ! k) (features b ! k) + adjust)
            else w ! k)"
  using assms
proof (induction n arbitrary: k)
  case 0
  show ?case by simp
next
  case (Suc n)
  then have IH: "foldl (bump b adjust) w [0..<n] ! k =
           (if k < n then (w ! k)(features b ! k := (w ! k) (features b ! k) + adjust)
            else w ! k)" for k
    by simp
  have len: "n < length (foldl (bump b adjust) w [0..<n])"
    using Suc.prems by simp
  show ?case
    using len by (auto simp add: bump_nth IH less_Suc_eq)
qed

lemma adjust_value_fields [simp]:
  "alpha (adjust_value st b target) = alpha st"
  "history (adjust_value st b target) = history st"
  "n_step (adjust_value st b target) = n_step st"
  "length (net (adjust_value st b target)) = length (net st)"
  by (simp_all add: adjust_value_def Let_def)

lemma adjust_value_nth:
  assumes "length (net st) = 32" "k < 32"
  shows "net (adjust_value st b target) ! k =
           (net st ! k)(features b ! k :=
              (net st ! k) (features b ! k) + alpha st * (of_int target - estimate_value st b))"
  using foldl_bump_nth [of 32 "net st" b _ k] assms
  by (simp add: adjust_value_def Let_def)

lemma estimate_after_adjust:
  assumes "length (net st) = 32"
  shows "estimate_value (adjust_value st b target) b =
           estimate_value st b + 32 * (alpha st * (of_int target - estimate_value st b))"
proof -
  have "estimate_value (adjust_value st b target) b =
        (\<Sum>k = 0..<32. (net st ! k) (features b ! k)
            + alpha st * (of_int target - estimate_value st b))"
    unfolding estimate_value_sum [of "adjust_value st b target"]
    by (rule sum.cong) (simp_all add: adjust_value_nth [OF assms])
  also have "\<dots> = estimate_value st b + 32 * (alpha st * (of_int target - estimate_value st b))"
    by (simp add: sum.distrib estimate_value_sum [of st])
  finally show ?thesis .
qed

lemma estimate_value_uniform:
  assumes "net st = replicate 32 (\<lambda>i. c)"
  shows "estimate_value st b = 32 * c"
proof -
  have "estimate_value st b = (\<Sum>k = 0..<(32::nat). c)"
    unfolding estimate_value_sum by (rule sum.cong) (simp_all add: assms)
  then show ?thesis by simp
qed

lemma estimate_example [simp]: "estimate_value example_player b = 0"
  using estimate_value_uniform [of example_player 0 b] by (simp add: example_player_def)

lemma example_player_fields:
  "length (net example_player) = 32" "alpha example_player = 1 / 64"
  "history example_player = []" "n_step example_player = 1"
  by (simp_all add: example_player_def)

text \<open>
  C4. With 32 tables, a learning rate \<open>alpha > 0\<close> with \<open>32 * alpha < 2\<close> and an estimate
  different from the target, one call of \<open>adjust_value\<close> scales the error
  \<open>target - estimate\<close> by \<open>1 - 32 * alpha\<close>, so its magnitude strictly decreases. The
  arithmetic is exact.
\<close>

theorem adjust_value_moves_toward_target:
  assumes "length (net st) = 32"
    and "0 < alpha st" and "32 * alpha st < 2"
    and "estimate_value st b \<noteq> of_int target"
  shows "of_int target - estimate_value (adjust_value st b target) b =
           (1 - 32 * alpha st) * (of_int target - estimate_value st b) \<and>
         \<bar>of_int target - estimate_value (adjust_value st b target) b\<bar> <
           \<bar>of_int target - estimate_value st b\<bar>"
proof -
  let ?e = "of_int target - estimate_value st b"
  have eq: "of_int target - estimate_value (adjust_value st b target) b =
           (1 - 32 * alpha st) * ?e"
    by (simp add: estimate_after_adjust [OF assms(1)] algebra_simps)
  have e: "0 < \<bar>?e\<bar>"
    using assms(4) by simp
  have "\<bar>1 - 32 * alpha st\<bar> < 1"
    using assms(2,3) by (simp add: abs_if)
  then have "\<bar>1 - 32 * alpha st\<bar> * \<bar>?e\<bar> < 1 * \<bar>?e\<bar>"
    using e by (rule mult_strict_right_mono)
  then show ?thesis
    using eq by (simp add: abs_mult)
qed

text \<open>
  An instance: zero weights, learning rate 1/64 and target 8.
\<close>

theorem adjust_value_moves_toward_target_witness:
  "length (net example_player) = 32 \<and> 0 < alpha example_player \<and>
   32 * alpha example_player < 2 \<and> estimate_value example_player example_board \<noteq> of_int 8 \<and>
   of_int 8 - estimate_value (adjust_value example_player example_board 8) example_board =
     (1 - 32 * alpha example_player) * (of_int 8 - estimate_value example_player example_board) \<and>
   \<bar>of_int 8 - estimate_value (adjust_value example_player example_board 8) example_board\<bar> <
     \<bar>of_int 8 - estimate_value example_player example_board\<bar>"
proof -
  have h: "length (net example_player) = 32" "0 < alpha example_player"
    "32 * alpha example_player < 2" "estimate_value example_player example_board \<noteq> of_int 8"
    by (simp_all add: example_player_fields)
  show ?thesis
    using h adjust_value_moves_toward_target [OF h] by simp
qed

text \<open>
  C10. One call of \<open>adjust_value\<close> for a board changes, in each of the 32 tables, at most
  the entry at that table's feature index for the board, and adds to it the same number
  \<open>alpha * (target - estimate)\<close>, computed from the weights before the call. Every other
  entry, the number of tables, the learning rate, the history and the horizon are
  unchanged.
\<close>

theorem adjust_value_frame:
  assumes "length (net st) = 32"
  shows "length (net (adjust_value st b target)) = 32 \<and>
         (\<forall>k < 32. \<forall>i.
            (net (adjust_value st b target) ! k) i =
              (if i = features b ! k
               then (net st ! k) i + alpha st * (of_int target - estimate_value st b)
               else (net st ! k) i)) \<and>
         alpha (adjust_value st b target) = alpha st \<and>
         history (adjust_value st b target) = history st \<and>
         n_step (adjust_value st b target) = n_step st"
  using assms by (simp add: adjust_value_nth)

text \<open>
  An instance: from zero weights toward 8 with learning rate 1/64, the selected entries
  become 1/8 and all others stay 0.
\<close>

theorem adjust_value_frame_witness:
  "length (net example_player) = 32 \<and>
   length (net (adjust_value example_player example_board 8)) = 32 \<and>
   (net (adjust_value example_player example_board 8) ! 0) (features example_board ! 0) = 1 / 8 \<and>
   (net (adjust_value example_player example_board 8) ! 0) (Suc (features example_board ! 0)) = 0 \<and>
   (net (adjust_value example_player example_board 8) ! 31) (features example_board ! 31) = 1 / 8"
proof -
  have h: "length (net example_player) = 32"
    by (simp add: example_player_fields)
  have w: "(net example_player ! k) i = 0" if "k < 32" for k i
    using that by (simp add: example_player_def)
  show ?thesis
    using h adjust_value_frame [OF h, of example_board 8]
    by (simp add: example_player_fields w)
qed

section \<open>Closing an episode\<close>

lemma close_step_history [simp]: "history (close_step st i) = history st"
  by (simp add: close_step_def)

lemma foldl_close_step_history [simp]: "history (foldl close_step st is) = history st"
  by (induction "is" arbitrary: st) simp_all

lemma close_episode_history: "history (close_episode st) = history st"
  by (simp add: close_episode_def)

lemma adjust_value_toward: "adjust_value st b target = adjust_toward st b (of_int target)"
  by (simp add: adjust_value_def adjust_toward_def Let_def)

lemma adjust_toward_fields [simp]:
  "alpha (adjust_toward st b target) = alpha st"
  "history (adjust_toward st b target) = history st"
  "n_step (adjust_toward st b target) = n_step st"
  "length (net (adjust_toward st b target)) = length (net st)"
  by (simp_all add: adjust_toward_def)

lemma adjust_toward_nth:
  assumes "length (net st) = 32" "k < 32"
  shows "net (adjust_toward st b target) ! k =
           (net st ! k)(features b ! k :=
              (net st ! k) (features b ! k) + alpha st * (target - estimate_value st b))"
  using foldl_bump_nth [of 32 "net st" b _ k] assms
  by (simp add: adjust_toward_def)

lemma trained_player_fields:
  "length (net trained_player) = 32" "alpha trained_player = 1 / 64" "n_step trained_player = 1"
  "history trained_player =
     [\<lparr>reward = 4, after = example_after\<rparr>, \<lparr>reward = 8, after = example_after2\<rparr>]"
  by (simp_all add: trained_player_def)

lemma estimate_trained: "estimate_value trained_player b = 1 / 2"
  using estimate_value_uniform [of trained_player "1 / 64" b] by (simp add: trained_player_def)

lemma estimate_after_terminal:
  "estimate_value (adjust_value trained_player example_after2 0) example_after2 = 1 / 4"
  by (simp add: estimate_after_adjust trained_player_fields estimate_trained)

lemma total_reward_trained:
  "total_reward (adjust_value trained_player example_after2 0) 0 = 8"
  by (simp add: total_reward_def trained_player_fields)

lemma float_to_int_example: "float_to_int (33 / 4) = 8"
  unfolding float_to_int_def by (simp add: floor_eq_iff)

lemma close_episode_trained:
  "close_episode trained_player =
     adjust_value (adjust_value trained_player example_after2 0) example_after 8"
proof -
  have "rev [0..<length (history trained_player) - 1] = [0]"
    by (simp add: trained_player_fields)
  then have "close_episode trained_player =
      close_step (adjust_value trained_player example_after2 0) 0"
    by (simp add: close_episode_def trained_player_fields)
  also have "\<dots> = adjust_value (adjust_value trained_player example_after2 0) example_after
      (float_to_int (of_int 8 + 1 / 4))"
    by (simp add: close_step_def trained_player_fields total_reward_trained estimate_after_terminal)
  finally show ?thesis
    by (simp add: float_to_int_example)
qed

lemma claimed_close_episode_trained:
  "claimed_close_episode trained_player =
     adjust_toward (adjust_value trained_player example_after2 0) example_after (8 + 1 / 4)"
proof -
  have "rev [0..<length (history trained_player) - 1] = [0]"
    by (simp add: trained_player_fields)
  then have "claimed_close_episode trained_player =
      claimed_close_step (adjust_value trained_player example_after2 0) 0"
    by (simp add: claimed_close_episode_def trained_player_fields adjust_value_toward)
  also have "\<dots> = adjust_toward (adjust_value trained_player example_after2 0) example_after
      (8 + 1 / 4)"
    by (simp add: claimed_close_step_def trained_player_fields total_reward_trained
        estimate_after_terminal)
  finally show ?thesis .
qed

text \<open>
  C5. If the history is empty or the learning rate is 0, \<open>close_episode\<close> returns the
  player as it is: every entry of every weight table is unchanged.
\<close>

theorem close_episode_noop:
  assumes "history st = [] \<or> alpha st = 0"
  shows "close_episode st = st \<and> net (close_episode st) = net st"
  using assms by (auto simp: close_episode_def)

text \<open>
  Two instances: an empty history, and a history of two steps with learning rate 0.
\<close>

theorem close_episode_noop_witness:
  "(history example_player = [] \<or> alpha example_player = 0) \<and>
   close_episode example_player = example_player \<and>
   (history (trained_player\<lparr>alpha := 0\<rparr>) = [] \<or> alpha (trained_player\<lparr>alpha := 0\<rparr>) = 0) \<and>
   history (trained_player\<lparr>alpha := 0\<rparr>) \<noteq> [] \<and>
   net (close_episode (trained_player\<lparr>alpha := 0\<rparr>)) = net trained_player"
proof -
  have h1: "history example_player = [] \<or> alpha example_player = 0"
    by (simp add: example_player_fields)
  have h2: "history (trained_player\<lparr>alpha := 0\<rparr>) = [] \<or> alpha (trained_player\<lparr>alpha := 0\<rparr>) = 0"
    by simp
  show ?thesis
    using h1 h2 close_episode_noop [OF h1] close_episode_noop [OF h2]
    by (simp add: trained_player_fields)
qed

text \<open>
  C2. The steps before the last are said to be adjusted toward the sum of rewards plus the
  estimate of the step \<open>n\<close> later. The parameter \<open>target\<close> of \<open>adjust_value\<close> is an
  \<open>int\<close>, so the fraction of that sum is dropped. For \<open>trained_player\<close> the terminal
  adjustment leaves the estimate 1/4 of the last afterstate, the first step should go
  toward 8 + 1/4 and goes toward 8, and its weight in table 0 ends 1/256 below the one
  described.
\<close>

theorem close_episode_truncates_target:
  "close_episode trained_player =
     adjust_value (adjust_value trained_player example_after2 0) example_after 8 \<and>
   of_int (total_reward (adjust_value trained_player example_after2 0) 0)
     + estimate_value (adjust_value trained_player example_after2 0) example_after2 = 8 + 1 / 4 \<and>
   (net (claimed_close_episode trained_player) ! 0) (features example_after ! 0)
     - (net (close_episode trained_player) ! 0) (features example_after ! 0) = 1 / 256"
proof -
  let ?st1 = "adjust_value trained_player example_after2 0"
  have len: "length (net ?st1) = 32"
    by (simp add: trained_player_fields)
  have "(net (adjust_toward ?st1 example_after (8 + 1 / 4)) ! 0) (features example_after ! 0)
     - (net (adjust_value ?st1 example_after 8) ! 0) (features example_after ! 0) = 1 / 256"
    by (simp add: adjust_toward_nth [OF len] adjust_value_nth [OF len] trained_player_fields
        algebra_simps)
  then show ?thesis
    by (simp add: close_episode_trained claimed_close_episode_trained total_reward_trained
        estimate_after_terminal)
qed

section \<open>The search over the directions\<close>

lemma foldl_pick_upper:
  fixes key :: "'s \<Rightarrow> real"
  assumes step: "\<And>s x. step s x =
      (case cand x of None \<Rightarrow> s | Some c \<Rightarrow> if key c > key s then c else s)"
  shows "key s \<le> key (foldl step s xs) \<and>
         (\<forall>x \<in> set xs. \<forall>c. cand x = Some c \<longrightarrow> key c \<le> key (foldl step s xs))"
proof (induction xs rule: rev_induct)
  case Nil
  show ?case by simp
next
  case (snoc a xs)
  show ?case
  proof (cases "cand a")
    case None
    then show ?thesis using snoc by (simp add: step)
  next
    case (Some c')
    then show ?thesis using snoc by (auto simp: step)
  qed
qed

lemma foldl_pick:
  fixes key :: "'s \<Rightarrow> real"
  assumes step: "\<And>s x. step s x =
      (case cand x of None \<Rightarrow> s | Some c \<Rightarrow> if key c > key s then c else s)"
  shows "(foldl step s xs = s \<and> (\<forall>x \<in> set xs. \<forall>c. cand x = Some c \<longrightarrow> key c \<le> key s)) \<or>
         (\<exists>ys x zs c. xs = ys @ x # zs \<and> cand x = Some c \<and> foldl step s xs = c \<and>
            key s < key c \<and>
            (\<forall>y \<in> set ys. \<forall>d. cand y = Some d \<longrightarrow> key d < key c) \<and>
            (\<forall>z \<in> set zs. \<forall>d. cand z = Some d \<longrightarrow> key d \<le> key c))"
proof (induction xs rule: rev_induct)
  case Nil
  show ?case by simp
next
  case (snoc a xs)
  let ?r = "foldl step s xs"
  have fold: "foldl step s (xs @ [a]) = step ?r a"
    by simp
  show ?case
  proof (cases "cand a")
    case None
    then have same: "foldl step s (xs @ [a]) = ?r"
      by (simp add: step)
    from snoc show ?thesis
    proof
      assume "?r = s \<and> (\<forall>x \<in> set xs. \<forall>c. cand x = Some c \<longrightarrow> key c \<le> key s)"
      then show ?thesis using None same by auto
    next
      assume "\<exists>ys x zs c. xs = ys @ x # zs \<and> cand x = Some c \<and> ?r = c \<and> key s < key c \<and>
            (\<forall>y \<in> set ys. \<forall>d. cand y = Some d \<longrightarrow> key d < key c) \<and>
            (\<forall>z \<in> set zs. \<forall>d. cand z = Some d \<longrightarrow> key d \<le> key c)"
      then obtain ys x zs c where h: "xs = ys @ x # zs" "cand x = Some c" "?r = c" "key s < key c"
            "\<forall>y \<in> set ys. \<forall>d. cand y = Some d \<longrightarrow> key d < key c"
            "\<forall>z \<in> set zs. \<forall>d. cand z = Some d \<longrightarrow> key d \<le> key c"
        by blast
      have "xs @ [a] = ys @ x # (zs @ [a])"
        using h(1) by simp
      moreover have "\<forall>z \<in> set (zs @ [a]). \<forall>d. cand z = Some d \<longrightarrow> key d \<le> key c"
        using h(6) None by auto
      ultimately show ?thesis
        using h(2-5) same by blast
    qed
  next
    case (Some c')
    show ?thesis
    proof (cases "key c' > key ?r")
      case True
      then have new: "foldl step s (xs @ [a]) = c'"
        using Some by (simp add: step)
      have below: "\<forall>y \<in> set xs. \<forall>d. cand y = Some d \<longrightarrow> key d < key c'"
        using foldl_pick_upper [where step = step and cand = cand and key = key and s = s and xs = xs, OF step] True by auto
      have "key s < key c'"
        using foldl_pick_upper [where step = step and cand = cand and key = key and s = s and xs = xs, OF step] True by auto
      then have "xs @ [a] = xs @ a # [] \<and> cand a = Some c' \<and> foldl step s (xs @ [a]) = c' \<and>
            key s < key c' \<and>
            (\<forall>y \<in> set xs. \<forall>d. cand y = Some d \<longrightarrow> key d < key c') \<and>
            (\<forall>z \<in> set []. \<forall>d. cand z = Some d \<longrightarrow> key d \<le> key c')"
        using Some new below by simp
      then show ?thesis by blast
    next
      case False
      then have same: "foldl step s (xs @ [a]) = ?r"
        using Some by (simp add: step)
      from snoc show ?thesis
      proof
        assume "?r = s \<and> (\<forall>x \<in> set xs. \<forall>c. cand x = Some c \<longrightarrow> key c \<le> key s)"
        then show ?thesis using Some same False by auto
      next
        assume "\<exists>ys x zs c. xs = ys @ x # zs \<and> cand x = Some c \<and> ?r = c \<and> key s < key c \<and>
            (\<forall>y \<in> set ys. \<forall>d. cand y = Some d \<longrightarrow> key d < key c) \<and>
            (\<forall>z \<in> set zs. \<forall>d. cand z = Some d \<longrightarrow> key d \<le> key c)"
        then obtain ys x zs c where h: "xs = ys @ x # zs" "cand x = Some c" "?r = c" "key s < key c"
            "\<forall>y \<in> set ys. \<forall>d. cand y = Some d \<longrightarrow> key d < key c"
            "\<forall>z \<in> set zs. \<forall>d. cand z = Some d \<longrightarrow> key d \<le> key c"
          by blast
        have "xs @ [a] = ys @ x # (zs @ [a])"
          using h(1) by simp
        moreover have "\<forall>z \<in> set (zs @ [a]). \<forall>d. cand z = Some d \<longrightarrow> key d \<le> key c"
          using h(3,6) Some False by auto
        ultimately show ?thesis
          using h(2-5) same by blast
      qed
    qed
  qed
qed

lemma opcode_split:
  assumes "opcode = ys @ x # zs"
  shows "x \<in> set opcode" and "\<forall>z \<in> set zs. x \<le> z" and "\<forall>y \<in> set ys. y < x"
proof -
  show "x \<in> set opcode"
    unfolding assms by simp
  have s: "sorted (ys @ x # zs)" and d: "distinct (ys @ x # zs)"
    using assms [symmetric] by (simp_all add: opcode_def)
  show "\<forall>z \<in> set zs. x \<le> z"
    using s by (simp add: sorted_append)
  show "\<forall>y \<in> set ys. y < x"
    using s d by (auto simp: sorted_append less_le)
qed





lemma slide_example_board:
  "board_slide example_board 0 =
     (- 1, [1, 1, 2, 3, 4, 5, 6, 7, 8, 9, 10, 11, 12, 13, 14, 15])"
  "board_slide example_board 1 =
     (4, [0, 2, 2, 3, 4, 5, 6, 7, 8, 9, 10, 11, 12, 13, 14, 15])"
  "board_slide example_board 2 =
     (- 1, [1, 1, 2, 3, 4, 5, 6, 7, 8, 9, 10, 11, 12, 13, 14, 15])"
  "board_slide example_board 3 =
     (4, [2, 2, 3, 0, 4, 5, 6, 7, 8, 9, 10, 11, 12, 13, 14, 15])"
  by code_simp+











section \<open>Choosing a move\<close>

lemma try_op_step:
  "try_op slide st before best op =
     (case try_cand slide st before op of None \<Rightarrow> best
      | Some c \<Rightarrow> if try_key c > try_key best then c else best)"
  by (simp add: try_op_def try_cand_def try_key_def Let_def split: prod.splits)


lemma take_action_cases:
  "(take_action slide st before = (action_slide (- 1), st) \<and>
      (\<forall>op \<in> set opcode. 0 \<le> fst (slide before op) \<longrightarrow>
          of_int (fst (slide before op)) + expect_value slide st (snd (slide before op))
            \<le> - 1 - flt_max)) \<or>
   (\<exists>op \<in> set opcode. 0 \<le> fst (slide before op) \<and>
      - 1 - flt_max < of_int (fst (slide before op)) + expect_value slide st (snd (slide before op)) \<and>
      take_action slide st before =
        (action_slide op, st\<lparr>history := history st @
            [\<lparr>reward = fst (slide before op), after = snd (slide before op)\<rparr>]\<rparr>) \<and>
      (\<forall>op' \<in> set opcode. 0 \<le> fst (slide before op') \<longrightarrow>
          of_int (fst (slide before op')) + expect_value slide st (snd (slide before op'))
            \<le> of_int (fst (slide before op)) + expect_value slide st (snd (slide before op)) \<and>
          (of_int (fst (slide before op')) + expect_value slide st (snd (slide before op'))
            = of_int (fst (slide before op)) + expect_value slide st (snd (slide before op))
             \<longrightarrow> op \<le> op')))"
proof -
  let ?init = "(- 1 :: int, - 1 :: int, - flt_max, replicate 16 0 :: board)"
  let ?score = "\<lambda>op. of_int (fst (slide before op)) + expect_value slide st (snd (slide before op))"
  note pick = foldl_pick [where step = "try_op slide st before" and cand = "try_cand slide st before"
      and key = try_key and s = ?init and xs = opcode, OF try_op_step]
  have key0: "try_key ?init = - 1 - flt_max"
    by (simp add: try_key_def)
  have cand: "try_cand slide st before op = Some c \<longleftrightarrow>
      0 \<le> fst (slide before op) \<and> c = (op, fst (slide before op),
         expect_value slide st (snd (slide before op)), snd (slide before op))" for op c
    by (auto simp: try_cand_def)
  from pick show ?thesis
  proof
    assume a: "foldl (try_op slide st before) ?init opcode = ?init \<and>
      (\<forall>x \<in> set opcode. \<forall>c. try_cand slide st before x = Some c \<longrightarrow> try_key c \<le> try_key ?init)"
    then have "take_action slide st before = (action_slide (- 1), st)"
      by (simp add: take_action_def)
    moreover have "\<forall>op \<in> set opcode. 0 \<le> fst (slide before op) \<longrightarrow> ?score op \<le> - 1 - flt_max"
      using a by (simp add: cand key0 try_key_def)
    ultimately show ?thesis by blast
  next
    assume "\<exists>ys x zs c. opcode = ys @ x # zs \<and> try_cand slide st before x = Some c \<and>
       foldl (try_op slide st before) ?init opcode = c \<and> try_key ?init < try_key c \<and>
       (\<forall>y \<in> set ys. \<forall>d. try_cand slide st before y = Some d \<longrightarrow> try_key d < try_key c) \<and>
       (\<forall>z \<in> set zs. \<forall>d. try_cand slide st before z = Some d \<longrightarrow> try_key d \<le> try_key c)"
    then obtain ys x zs c where h: "opcode = ys @ x # zs" "try_cand slide st before x = Some c"
       "foldl (try_op slide st before) ?init opcode = c" "try_key ?init < try_key c"
       "\<forall>y \<in> set ys. \<forall>d. try_cand slide st before y = Some d \<longrightarrow> try_key d < try_key c"
       "\<forall>z \<in> set zs. \<forall>d. try_cand slide st before z = Some d \<longrightarrow> try_key d \<le> try_key c"
      by blast
    note sp = opcode_split [OF h(1)]
    have c: "c = (x, fst (slide before x), expect_value slide st (snd (slide before x)),
        snd (slide before x))" and legal: "0 \<le> fst (slide before x)"
      using h(2) by (simp_all add: cand)
    have kc: "try_key c = ?score x"
      by (simp add: c try_key_def)
    have x: "x \<noteq> - 1"
      using sp(1) by (auto simp: opcode_def)
    have ta: "take_action slide st before =
        (action_slide x, st\<lparr>history := history st @
            [\<lparr>reward = fst (slide before x), after = snd (slide before x)\<rparr>]\<rparr>)"
      using x by (simp add: take_action_def h(3) c)
    have above: "- 1 - flt_max < ?score x"
      using h(4) by (simp add: key0 kc)
    have best: "?score op' \<le> ?score x \<and> (?score op' = ?score x \<longrightarrow> x \<le> op')"
      if "op' \<in> set opcode" "0 \<le> fst (slide before op')" for op'
    proof -
      have kd: "try_cand slide st before op' = Some (op', fst (slide before op'),
          expect_value slide st (snd (slide before op')), snd (slide before op'))"
        using that(2) by (simp add: cand)
      from that(1) consider "op' \<in> set ys" | "op' = x" | "op' \<in> set zs"
        unfolding h(1) by auto
      then show ?thesis
      proof cases
        case 1
        then have "?score op' < ?score x"
          using h(5) kd kc by (auto simp: try_key_def)
        then show ?thesis by simp
      next
        case 2
        then show ?thesis by simp
      next
        case 3
        then have "?score op' \<le> ?score x"
          using h(6) kd kc by (auto simp: try_key_def)
        moreover have "x \<le> op'"
          using 3 sp(2) by simp
        ultimately show ?thesis by simp
      qed
    qed
    show ?thesis
      using sp(1) legal above ta best by blast
  qed
qed




text \<open>
  C9. If every step of the history has a reward of at least 0, then so it is after each
  operation: \<open>open_episode\<close> empties the history, \<open>take_action\<close> leaves it as it is or
  appends one step holding the reward, at least 0, and the afterstate of a legal
  direction, and \<open>close_episode\<close> does not change it.
\<close>

theorem history_rewards_nonnegative:
  assumes "\<forall>s \<in> set (history st). 0 \<le> reward s"
  shows "history (open_episode st) = [] \<and>
         (\<forall>s \<in> set (history (snd (take_action slide st before))). 0 \<le> reward s) \<and>
         (history (snd (take_action slide st before)) = history st \<or>
          (\<exists>op \<in> set opcode. 0 \<le> fst (slide before op) \<and>
             history (snd (take_action slide st before)) =
               history st @ [\<lparr>reward = fst (slide before op), after = snd (slide before op)\<rparr>])) \<and>
         history (close_episode st) = history st"
proof -
  from take_action_cases [of slide st before]
  have "history (snd (take_action slide st before)) = history st \<or>
          (\<exists>op \<in> set opcode. 0 \<le> fst (slide before op) \<and>
             history (snd (take_action slide st before)) =
               history st @ [\<lparr>reward = fst (slide before op), after = snd (slide before op)\<rparr>])"
  proof
    assume "take_action slide st before = (action_slide (- 1), st) \<and>
      (\<forall>op \<in> set opcode. 0 \<le> fst (slide before op) \<longrightarrow>
          of_int (fst (slide before op)) + expect_value slide st (snd (slide before op))
            \<le> - 1 - flt_max)"
    then show ?thesis by simp
  next
    assume "\<exists>op \<in> set opcode. 0 \<le> fst (slide before op) \<and>
      - 1 - flt_max < of_int (fst (slide before op)) + expect_value slide st (snd (slide before op)) \<and>
      take_action slide st before =
        (action_slide op, st\<lparr>history := history st @
            [\<lparr>reward = fst (slide before op), after = snd (slide before op)\<rparr>]\<rparr>) \<and>
      (\<forall>op' \<in> set opcode. 0 \<le> fst (slide before op') \<longrightarrow>
          of_int (fst (slide before op')) + expect_value slide st (snd (slide before op'))
            \<le> of_int (fst (slide before op)) + expect_value slide st (snd (slide before op)) \<and>
          (of_int (fst (slide before op')) + expect_value slide st (snd (slide before op'))
            = of_int (fst (slide before op)) + expect_value slide st (snd (slide before op))
             \<longrightarrow> op \<le> op'))"
    then obtain op where "op \<in> set opcode" "0 \<le> fst (slide before op)"
      "take_action slide st before =
        (action_slide op, st\<lparr>history := history st @
            [\<lparr>reward = fst (slide before op), after = snd (slide before op)\<rparr>]\<rparr>)"
      by blast
    then show ?thesis by auto
  qed
  moreover from this have "\<forall>s \<in> set (history (snd (take_action slide st before))). 0 \<le> reward s"
    using assms by auto
  ultimately show ?thesis
    by (simp add: open_episode_def close_episode_history)
qed

text \<open>
  An instance: the history of \<open>trained_player\<close>, with rewards 4 and 8.
\<close>

theorem history_rewards_nonnegative_witness:
  "list_all (\<lambda>s. 0 \<le> reward s) (history trained_player) \<and>
   history (open_episode trained_player) = [] \<and>
   list_all (\<lambda>s. 0 \<le> reward s)
     (history (snd (take_action board_slide trained_player example_board))) \<and>
   history (close_episode trained_player) = history trained_player"
proof -
  have h: "\<forall>s \<in> set (history trained_player). 0 \<le> reward s"
    by (simp add: trained_player_fields)
  show ?thesis
    using h history_rewards_nonnegative [where st = trained_player and slide = board_slide
        and before = example_board] by (simp add: list_all_iff)
qed

section \<open>The random environment places a tile\<close>

lemma rndenv_take_action_cases:
  "(rndenv_take_action space popup b = NoAction \<and> (\<forall>pos \<in> set space. b ! pos \<noteq> 0)) \<or>
   (\<exists>pos \<in> set space. b ! pos = 0 \<and>
      rndenv_take_action space popup b = Place pos (if popup \<noteq> 0 then 1 else 2))"
  by (induction space) auto

text \<open>
  C8. Whatever permutation of the 16 positions the shuffle leaves and whatever number is
  drawn, the environment returns the null action exactly when the board has no empty
  cell; when there is an empty cell it returns a placement at an empty cell of the tile
  exponent 1 or 2.
\<close>

theorem rndenv_take_action_place:
  assumes "set space = {0..<16}"
  shows "(rndenv_take_action space popup b = NoAction \<longleftrightarrow> (\<forall>pos < 16. b ! pos \<noteq> 0)) \<and>
         ((\<exists>pos < 16. b ! pos = 0) \<longrightarrow>
            (\<exists>pos tile. rndenv_take_action space popup b = Place pos tile \<and>
               pos < 16 \<and> b ! pos = 0 \<and> (tile = 1 \<or> tile = 2)))"
proof -
  have mem: "pos \<in> set space \<longleftrightarrow> pos < 16" for pos
    using assms by simp
  from rndenv_take_action_cases [of space popup b] show ?thesis
  proof
    assume "rndenv_take_action space popup b = NoAction \<and> (\<forall>pos \<in> set space. b ! pos \<noteq> 0)"
    then show ?thesis
      by (auto simp: mem)
  next
    assume "\<exists>pos \<in> set space. b ! pos = 0 \<and>
      rndenv_take_action space popup b = Place pos (if popup \<noteq> 0 then 1 else 2)"
    then obtain pos where p: "pos < 16" "b ! pos = 0"
      "rndenv_take_action space popup b = Place pos (if popup \<noteq> 0 then 1 else 2)"
      by (auto simp: mem)
    have "rndenv_take_action space popup b \<noteq> NoAction"
      by (simp add: p(3))
    moreover have "\<not> (\<forall>pos < 16. b ! pos \<noteq> 0)"
      using p(1,2) by blast
    moreover have "\<exists>pos tile. rndenv_take_action space popup b = Place pos tile \<and>
               pos < 16 \<and> b ! pos = 0 \<and> (tile = 1 \<or> tile = 2)"
      using p by auto
    ultimately show ?thesis by blast
  qed
qed

text \<open>
  An instance: the one empty cell of \<open>example_after\<close> is found, with a 2-tile when 0 is
  drawn and a 1-tile otherwise, and \<open>full_board\<close> gets the null action.
\<close>

theorem rndenv_take_action_place_witness:
  "set shuffled_space = {0..<16} \<and>
   rndenv_take_action shuffled_space 0 example_after = Place 3 2 \<and>
   rndenv_take_action shuffled_space 7 example_after = Place 3 1 \<and>
   rndenv_take_action shuffled_space 7 full_board = NoAction"
proof -
  have h: "set shuffled_space = {0..<16}"
    by code_simp
  have "rndenv_take_action shuffled_space 0 example_after = Place 3 2"
    and "rndenv_take_action shuffled_space 7 example_after = Place 3 1"
    by (simp_all add: shuffled_space_def example_after_def)
  moreover have "\<forall>pos \<in> {0..<16}. full_board ! pos \<noteq> 0"
    by code_simp
  then have "\<forall>pos < 16. full_board ! pos \<noteq> 0"
    by simp
  ultimately show ?thesis
    using h rndenv_take_action_place [OF h, of 7 full_board] by simp
qed

section \<open>Choosing a move in binary32\<close>

subsection \<open>Rounding\<close>

lemma fgt_irrefl: "\<not> fgt a a"
  by (cases a) simp_all

lemma fgt_trans: "fgt a b \<Longrightarrow> fgt b c \<Longrightarrow> fgt a c"
  by (cases a; cases b; cases c) simp_all

lemma powr_powi: "(2::real) powr of_int e = 2 powi e"
  by (simp add: powr_real_of_int')

lemma powi_pos: "0 < (2::real) powi e"
  by simp

lemma expo_eq:
  assumes "2 powi e \<le> \<bar>x\<bar>" "\<bar>x\<bar> < 2 powi (e + 1)" "- 126 \<le> e"
  shows "expo x = e"
proof -
  have pos: "0 < \<bar>x\<bar>"
    using assms(1) powi_pos [of e] by linarith
  have "(2::real) powi (- 126) \<le> 2 powi e"
    using assms(3) by (intro power_int_increasing) simp_all
  then have "\<not> \<bar>x\<bar> < 2 powi (- 126)"
    using assms(1) by linarith
  moreover have "\<lfloor>log 2 \<bar>x\<bar>\<rfloor> = e"
  proof (rule floor_unique)
    have "2 powr of_int e \<le> \<bar>x\<bar>"
      using assms(1) by (simp only: powr_powi)
    then show "of_int e \<le> log 2 \<bar>x\<bar>"
      using pos by (simp add: le_log_iff)
    have "\<bar>x\<bar> < 2 powr of_int (e + 1)"
      using assms(2) by (simp only: powr_powi)
    then have "log 2 \<bar>x\<bar> < of_int (e + 1)"
      using pos by (simp add: log_less_iff)
    then show "log 2 \<bar>x\<bar> < of_int e + 1"
      by simp
  qed
  ultimately show ?thesis
    by (simp add: expo_def)
qed

lemma round32_0: "round32 0 = Fin 0"
  by (simp add: round32_def nearest_even_def flt_max_def)

lemma round32_1: "round32 1 = Fin 1"
proof -
  have "expo 1 = 0"
    by (rule expo_eq) simp_all
  then show ?thesis
    by (simp add: round32_def nearest_even_def flt_max_def)
qed

lemma round32_m1: "round32 (- 1) = Fin (- 1)"
proof -
  have "expo (- 1) = 0"
    by (rule expo_eq) simp_all
  then show ?thesis
    by (simp add: round32_def nearest_even_def flt_max_def)
qed

lemma round32_2: "round32 2 = Fin 2"
proof -
  have "expo 2 = 1"
    by (rule expo_eq) simp_all
  then show ?thesis
    by (simp add: round32_def nearest_even_def flt_max_def)
qed

lemma round32_8: "round32 8 = Fin 8"
proof -
  have "expo 8 = 3"
    by (rule expo_eq) simp_all
  then show ?thesis
    by (simp add: round32_def nearest_even_def flt_max_def)
qed

lemma round32_10: "round32 10 = Fin 10"
proof -
  have "expo 10 = 3"
    by (rule expo_eq) simp_all
  then show ?thesis
    by (simp add: round32_def nearest_even_def flt_max_def)
qed

lemma round32_100: "round32 100 = Fin 100"
proof -
  have "expo 100 = 6"
    by (rule expo_eq) simp_all
  then show ?thesis
    by (simp add: round32_def nearest_even_def flt_max_def)
qed

lemma round32_108: "round32 108 = Fin 108"
proof -
  have "expo 108 = 6"
    by (rule expo_eq) simp_all
  then show ?thesis
    by (simp add: round32_def nearest_even_def flt_max_def)
qed

lemma round32_flt_max: "round32 (- flt_max) = Fin (- flt_max)"
proof -
  have "expo (- flt_max) = 127"
    by (rule expo_eq) (simp_all add: flt_max_def)
  then show ?thesis
    by (simp add: round32_def nearest_even_def flt_max_def Let_def)
qed

lemma round32_sentinel: "round32 (- 1 - flt_max) = Fin (- flt_max)"
proof -
  have "expo (- 1 - flt_max) = 127"
    by (rule expo_eq) (simp_all add: flt_max_def)
  then show ?thesis
    apply (simp add: round32_def nearest_even_def flt_max_def Let_def)
    done
qed

lemma round32_0_9_max: "round32 (- (15099493 * 2 ^ 104)) = Fin (- (15099493 * 2 ^ 104))"
proof -
  have "expo (- (15099493 * 2 ^ 104)) = 127"
    by (rule expo_eq) simp_all
  then show ?thesis
    by (simp add: round32_def nearest_even_def flt_max_def Let_def)
qed

lemma absorb_10: "round32 (- (15099493 * 2 ^ 104) + 10) = Fin (- (15099493 * 2 ^ 104))"
proof -
  have "expo (- (15099493 * 2 ^ 104) + 10) = 127"
    by (rule expo_eq) simp_all
  then show ?thesis
    by (simp add: round32_def nearest_even_def flt_max_def Let_def)
qed

lemma double_flt_max: "fadd (Fin (- flt_max)) (Fin (- flt_max)) = NInf"
proof -
  have "expo (- flt_max + - flt_max) = 128"
    by (rule expo_eq) (simp_all add: flt_max_def)
  then show ?thesis
    by (simp add: round32_def nearest_even_def flt_max_def Let_def)
qed

lemma mul_0_9: "fmul float_0_9 (Fin (- flt_max)) = Fin (- (15099493 * 2 ^ 104))"
proof -
  have "expo (15099494 / 2 ^ 24 * - flt_max) = 127"
    by (rule expo_eq) (simp_all add: flt_max_def)
  then show ?thesis
    by (simp add: float_0_9_def round32_def nearest_even_def flt_max_def Let_def)
qed

lemma mul_0_1: "fmul float_0_1 (Fin (- flt_max)) = Fin (- (13421772 * 2 ^ 101))"
proof -
  have "expo (13421773 / 2 ^ 27 * - flt_max) = 124"
    by (rule expo_eq) (simp_all add: flt_max_def)
  then show ?thesis
    by (simp add: float_0_1_def round32_def nearest_even_def flt_max_def Let_def)
qed

lemma mul_0_1_100: "fmul float_0_1 (Fin 100) = Fin 10"
proof -
  have "expo (13421773 / 2 ^ 27 * 100) = 3"
    by (rule expo_eq) simp_all
  then show ?thesis
    by (simp add: float_0_1_def round32_def nearest_even_def flt_max_def Let_def)
qed

lemma mul_0_1_0: "fmul float_0_1 (Fin 0) = Fin 0"
  by (simp add: float_0_1_def round32_0)

lemma half_0_9: "fdiv (Fin (- (15099493 * 2 ^ 104))) (Fin 2) = Fin (- (15099493 * 2 ^ 103))"
proof -
  have "expo (- (15099493 * 2 ^ 104) / 2) = 126"
    by (rule expo_eq) simp_all
  then show ?thesis
    by (simp add: round32_def nearest_even_def flt_max_def Let_def)
qed

lemma half_0_1: "fdiv (Fin (- (13421772 * 2 ^ 101))) (Fin 2) = Fin (- (13421772 * 2 ^ 100))"
proof -
  have "expo (- (13421772 * 2 ^ 101) / 2) = 123"
    by (rule expo_eq) simp_all
  then show ?thesis
    by (simp add: round32_def nearest_even_def flt_max_def Let_def)
qed

lemma sum_step_1: "fadd (Fin 0) (Fin (- (15099493 * 2 ^ 103))) = Fin (- (15099493 * 2 ^ 103))"
proof -
  have "expo (0 + - (15099493 * 2 ^ 103)) = 126"
    by (rule expo_eq) simp_all
  then show ?thesis
    by (simp add: round32_def nearest_even_def flt_max_def Let_def)
qed

lemma sum_step_2:
  "fadd (Fin (- (15099493 * 2 ^ 103))) (Fin (- (13421772 * 2 ^ 100))) = Fin (- (16777214 * 2 ^ 103))"
proof -
  have "expo (- (15099493 * 2 ^ 103) + - (13421772 * 2 ^ 100)) = 126"
    by (rule expo_eq) simp_all
  then show ?thesis
    by (simp add: round32_def nearest_even_def flt_max_def Let_def)
qed

lemma sum_step_3:
  "fadd (Fin (- (16777214 * 2 ^ 103))) (Fin (- (15099493 * 2 ^ 103))) = Fin (- (15938354 * 2 ^ 104))"
proof -
  have "expo (- (16777214 * 2 ^ 103) + - (15099493 * 2 ^ 103)) = 127"
    by (rule expo_eq) simp_all
  then show ?thesis
    by (simp add: round32_def nearest_even_def flt_max_def Let_def)
qed

lemma sum_step_4:
  "fadd (Fin (- (15938354 * 2 ^ 104))) (Fin (- (13421772 * 2 ^ 100))) = Fin (- flt_max)"
proof -
  have "expo (- (15938354 * 2 ^ 104) + - (13421772 * 2 ^ 100)) = 127"
    by (rule expo_eq) simp_all
  then show ?thesis
    by (simp add: round32_def nearest_even_def flt_max_def Let_def)
qed

lemma score_at_floor: "fadd (of_int32 0) (Fin (- flt_max)) = Fin (- flt_max)"
  using round32_flt_max by (simp add: of_int32_def round32_0)

lemma sentinel32: "fadd (of_int32 (- 1)) (Fin (- flt_max)) = Fin (- flt_max)"
  using round32_sentinel by (simp add: of_int32_def round32_m1)

lemma fadd_NaN_right [simp]: "fadd a NaN = NaN"
  by (cases a) simp_all

lemma fgt_fadd_NInf [simp]: "fgt (fadd a NInf) c = False"
  by (cases a; cases c) simp_all

subsection \<open>The loop over the directions\<close>

lemma foldl_pick32_upper:
  assumes step: "\<And>s x. step s x =
      (case cand x of None \<Rightarrow> s | Some c \<Rightarrow> if fgt (key c) (key s) then c else s)"
  shows "(foldl step s xs = s \<or> fgt (key (foldl step s xs)) (key s)) \<and>
         (\<forall>x \<in> set xs. \<forall>c. cand x = Some c \<longrightarrow> \<not> fgt (key c) (key (foldl step s xs)))"
proof (induction xs rule: rev_induct)
  case Nil
  show ?case by simp
next
  case (snoc a xs)
  let ?r = "foldl step s xs"
  show ?case
  proof (cases "cand a")
    case None
    then show ?thesis using snoc by (simp add: step)
  next
    case (Some c')
    show ?thesis
    proof (cases "fgt (key c') (key ?r)")
      case True
      then have new: "foldl step s (xs @ [a]) = c'"
        using Some by (simp add: step)
      have "fgt (key c') (key s)"
        using snoc True by (auto intro: fgt_trans)
      moreover have "\<not> fgt (key d) (key c')" if "x \<in> set xs" "cand x = Some d" for x d
      proof
        assume "fgt (key d) (key c')"
        then have "fgt (key d) (key ?r)"
          using True by (rule fgt_trans)
        then show False
          using snoc that by blast
      qed
      ultimately show ?thesis
        using Some new by (auto simp: fgt_irrefl)
    next
      case False
      then have "foldl step s (xs @ [a]) = ?r"
        using Some by (simp add: step)
      then show ?thesis
        using snoc Some False by auto
    qed
  qed
qed

lemma foldl_pick32:
  assumes step: "\<And>s x. step s x =
      (case cand x of None \<Rightarrow> s | Some c \<Rightarrow> if fgt (key c) (key s) then c else s)"
  shows "(foldl step s xs = s \<and> (\<forall>x \<in> set xs. \<forall>c. cand x = Some c \<longrightarrow> \<not> fgt (key c) (key s))) \<or>
         (\<exists>ys x zs c. xs = ys @ x # zs \<and> cand x = Some c \<and> foldl step s xs = c \<and>
            fgt (key c) (key s) \<and>
            (\<forall>y \<in> set ys. \<forall>d. cand y = Some d \<longrightarrow> \<not> fgt (key d) (key c) \<and> key d \<noteq> key c) \<and>
            (\<forall>z \<in> set zs. \<forall>d. cand z = Some d \<longrightarrow> \<not> fgt (key d) (key c)))"
proof (induction xs rule: rev_induct)
  case Nil
  show ?case by simp
next
  case (snoc a xs)
  let ?r = "foldl step s xs"
  note up = foldl_pick32_upper [where step = step and cand = cand and key = key and s = s
      and xs = xs, OF step]
  show ?case
  proof (cases "cand a")
    case None
    then have same: "foldl step s (xs @ [a]) = ?r"
      by (simp add: step)
    from snoc show ?thesis
    proof
      assume "?r = s \<and> (\<forall>x \<in> set xs. \<forall>c. cand x = Some c \<longrightarrow> \<not> fgt (key c) (key s))"
      then show ?thesis using None same by auto
    next
      assume "\<exists>ys x zs c. xs = ys @ x # zs \<and> cand x = Some c \<and> ?r = c \<and> fgt (key c) (key s) \<and>
            (\<forall>y \<in> set ys. \<forall>d. cand y = Some d \<longrightarrow> \<not> fgt (key d) (key c) \<and> key d \<noteq> key c) \<and>
            (\<forall>z \<in> set zs. \<forall>d. cand z = Some d \<longrightarrow> \<not> fgt (key d) (key c))"
      then obtain ys x zs c where h: "xs = ys @ x # zs" "cand x = Some c" "?r = c"
            "fgt (key c) (key s)"
            "\<forall>y \<in> set ys. \<forall>d. cand y = Some d \<longrightarrow> \<not> fgt (key d) (key c) \<and> key d \<noteq> key c"
            "\<forall>z \<in> set zs. \<forall>d. cand z = Some d \<longrightarrow> \<not> fgt (key d) (key c)"
        by blast
      have "xs @ [a] = ys @ x # (zs @ [a])"
        using h(1) by simp
      moreover have "\<forall>z \<in> set (zs @ [a]). \<forall>d. cand z = Some d \<longrightarrow> \<not> fgt (key d) (key c)"
        using h(6) None by auto
      ultimately show ?thesis
        using h(2-5) same by blast
    qed
  next
    case (Some c')
    show ?thesis
    proof (cases "fgt (key c') (key ?r)")
      case True
      then have new: "foldl step s (xs @ [a]) = c'"
        using Some by (simp add: step)
      have above: "fgt (key c') (key s)"
        using up True by (auto intro: fgt_trans)
      have below: "\<not> fgt (key d) (key c') \<and> key d \<noteq> key c'" if "y \<in> set xs" "cand y = Some d" for y d
      proof -
        have nd: "\<not> fgt (key d) (key ?r)"
          using up that by blast
        have "\<not> fgt (key d) (key c')"
        proof
          assume "fgt (key d) (key c')"
          then have "fgt (key d) (key ?r)"
            using True by (rule fgt_trans)
          then show False using nd by simp
        qed
        moreover have "key d \<noteq> key c'"
          using nd True by auto
        ultimately show ?thesis by simp
      qed
      have "xs @ [a] = xs @ a # [] \<and> cand a = Some c' \<and> foldl step s (xs @ [a]) = c' \<and>
            fgt (key c') (key s) \<and>
            (\<forall>y \<in> set xs. \<forall>d. cand y = Some d \<longrightarrow> \<not> fgt (key d) (key c') \<and> key d \<noteq> key c') \<and>
            (\<forall>z \<in> set []. \<forall>d. cand z = Some d \<longrightarrow> \<not> fgt (key d) (key c'))"
        using Some new above below by simp
      then show ?thesis by blast
    next
      case False
      then have same: "foldl step s (xs @ [a]) = ?r"
        using Some by (simp add: step)
      from snoc show ?thesis
      proof
        assume "?r = s \<and> (\<forall>x \<in> set xs. \<forall>c. cand x = Some c \<longrightarrow> \<not> fgt (key c) (key s))"
        then show ?thesis using Some same False by auto
      next
        assume "\<exists>ys x zs c. xs = ys @ x # zs \<and> cand x = Some c \<and> ?r = c \<and> fgt (key c) (key s) \<and>
            (\<forall>y \<in> set ys. \<forall>d. cand y = Some d \<longrightarrow> \<not> fgt (key d) (key c) \<and> key d \<noteq> key c) \<and>
            (\<forall>z \<in> set zs. \<forall>d. cand z = Some d \<longrightarrow> \<not> fgt (key d) (key c))"
        then obtain ys x zs c where h: "xs = ys @ x # zs" "cand x = Some c" "?r = c"
            "fgt (key c) (key s)"
            "\<forall>y \<in> set ys. \<forall>d. cand y = Some d \<longrightarrow> \<not> fgt (key d) (key c) \<and> key d \<noteq> key c"
            "\<forall>z \<in> set zs. \<forall>d. cand z = Some d \<longrightarrow> \<not> fgt (key d) (key c)"
          by blast
        have "xs @ [a] = ys @ x # (zs @ [a])"
          using h(1) by simp
        moreover have "\<forall>z \<in> set (zs @ [a]). \<forall>d. cand z = Some d \<longrightarrow> \<not> fgt (key d) (key c)"
          using h(3,6) Some False by auto
        ultimately show ?thesis
          using h(2-5) same by blast
      qed
    qed
  qed
qed

lemma try_op32_step:
  "try_op32 slide w before best op =
     (case try_cand32 slide w before op of None \<Rightarrow> best
      | Some c \<Rightarrow> if fgt (try_key32 c) (try_key32 best) then c else best)"
  by (simp add: try_op32_def try_cand32_def try_key32_def Let_def split: prod.splits)

lemma initial_key32:
  "try_key32 (- 1, - 1, Fin (- flt_max), replicate 16 0) = Fin (- flt_max)"
  using round32_sentinel by (simp add: try_key32_def of_int32_def round32_m1)

lemma take_action32_cases:
  "(take_action32 slide w hist before = (action_slide (- 1), hist) \<and>
      (\<forall>op \<in> set opcode. 0 \<le> fst (slide before op) \<longrightarrow>
          \<not> fgt (score32 slide w before op) (Fin (- flt_max)))) \<or>
   (\<exists>op \<in> set opcode. 0 \<le> fst (slide before op) \<and>
      fgt (score32 slide w before op) (Fin (- flt_max)) \<and>
      take_action32 slide w hist before =
        (action_slide op,
         hist @ [\<lparr>reward = fst (slide before op), after = snd (slide before op)\<rparr>]) \<and>
      (\<forall>op' \<in> set opcode. 0 \<le> fst (slide before op') \<longrightarrow>
          \<not> fgt (score32 slide w before op') (score32 slide w before op) \<and>
          (score32 slide w before op' = score32 slide w before op \<longrightarrow> op \<le> op')))"
proof -
  let ?init = "(- 1 :: int, - 1 :: int, Fin (- flt_max), replicate 16 0 :: board)"
  note pick = foldl_pick32 [where step = "try_op32 slide w before"
      and cand = "try_cand32 slide w before" and key = try_key32 and s = ?init and xs = opcode,
      OF try_op32_step]
  have cand: "try_cand32 slide w before op = Some c \<longleftrightarrow>
      0 \<le> fst (slide before op) \<and> c = (op, fst (slide before op),
         expect_value32 slide w (snd (slide before op)), snd (slide before op))" for op c
    by (auto simp: try_cand32_def)
  have key: "try_key32 (op, fst (slide before op),
         expect_value32 slide w (snd (slide before op)), snd (slide before op)) =
       score32 slide w before op" for op
    by (simp add: try_key32_def score32_def)
  from pick show ?thesis
  proof
    assume a: "foldl (try_op32 slide w before) ?init opcode = ?init \<and>
      (\<forall>x \<in> set opcode. \<forall>c. try_cand32 slide w before x = Some c \<longrightarrow>
         \<not> fgt (try_key32 c) (try_key32 ?init))"
    then have "take_action32 slide w hist before = (action_slide (- 1), hist)"
      by (simp add: take_action32_def)
    moreover have "\<forall>op \<in> set opcode. 0 \<le> fst (slide before op) \<longrightarrow>
        \<not> fgt (score32 slide w before op) (Fin (- flt_max))"
      using a by (simp add: cand key initial_key32)
    ultimately show ?thesis by blast
  next
    assume "\<exists>ys x zs c. opcode = ys @ x # zs \<and> try_cand32 slide w before x = Some c \<and>
       foldl (try_op32 slide w before) ?init opcode = c \<and> fgt (try_key32 c) (try_key32 ?init) \<and>
       (\<forall>y \<in> set ys. \<forall>d. try_cand32 slide w before y = Some d \<longrightarrow>
          \<not> fgt (try_key32 d) (try_key32 c) \<and> try_key32 d \<noteq> try_key32 c) \<and>
       (\<forall>z \<in> set zs. \<forall>d. try_cand32 slide w before z = Some d \<longrightarrow>
          \<not> fgt (try_key32 d) (try_key32 c))"
    then obtain ys x zs c where h: "opcode = ys @ x # zs" "try_cand32 slide w before x = Some c"
       "foldl (try_op32 slide w before) ?init opcode = c" "fgt (try_key32 c) (try_key32 ?init)"
       "\<forall>y \<in> set ys. \<forall>d. try_cand32 slide w before y = Some d \<longrightarrow>
          \<not> fgt (try_key32 d) (try_key32 c) \<and> try_key32 d \<noteq> try_key32 c"
       "\<forall>z \<in> set zs. \<forall>d. try_cand32 slide w before z = Some d \<longrightarrow>
          \<not> fgt (try_key32 d) (try_key32 c)"
      by blast
    note sp = opcode_split [OF h(1)]
    have c: "c = (x, fst (slide before x), expect_value32 slide w (snd (slide before x)),
        snd (slide before x))" and legal: "0 \<le> fst (slide before x)"
      using h(2) by (simp_all add: cand)
    have kc: "try_key32 c = score32 slide w before x"
      by (simp add: c key)
    have x: "x \<noteq> - 1"
      using sp(1) by (auto simp: opcode_def)
    have ta: "take_action32 slide w hist before =
        (action_slide x,
         hist @ [\<lparr>reward = fst (slide before x), after = snd (slide before x)\<rparr>])"
      using x by (simp add: take_action32_def h(3) c)
    have above: "fgt (score32 slide w before x) (Fin (- flt_max))"
      using h(4) by (simp add: initial_key32 kc)
    have best: "\<not> fgt (score32 slide w before op') (score32 slide w before x) \<and>
        (score32 slide w before op' = score32 slide w before x \<longrightarrow> x \<le> op')"
      if "op' \<in> set opcode" "0 \<le> fst (slide before op')" for op'
    proof -
      have kd: "try_cand32 slide w before op' = Some (op', fst (slide before op'),
          expect_value32 slide w (snd (slide before op')), snd (slide before op'))"
        using that(2) by (simp add: cand)
      from that(1) consider "op' \<in> set ys" | "op' = x" | "op' \<in> set zs"
        unfolding h(1) by auto
      then show ?thesis
      proof cases
        case 1
        then show ?thesis
          using h(5) kd kc key by fastforce
      next
        case 2
        then show ?thesis by (simp add: fgt_irrefl)
      next
        case 3
        then have "\<not> fgt (score32 slide w before op') (score32 slide w before x)"
          using h(6) kd kc key by fastforce
        moreover have "x \<le> op'"
          using 3 sp(2) by simp
        ultimately show ?thesis by simp
      qed
    qed
    show ?thesis
      using sp(1) legal above ta best by blast
  qed
qed

subsection \<open>Weights whose estimates are NaN or infinite\<close>

lemma foldl_fadd_NaN:
  assumes "ks \<noteq> []" "\<forall>k \<in> set ks. f k = NaN"
  shows "foldl (\<lambda>value k. fadd value (f k)) a ks = NaN"
  using assms
proof (induction ks arbitrary: a rule: rev_induct)
  case Nil
  then show ?case by simp
next
  case (snoc k ks)
  then show ?case by simp
qed

lemma estimate_value32_nan: "estimate_value32 nan_net b = NaN"
  unfolding estimate_value32_def
  by (rule foldl_fadd_NaN) (simp_all add: nan_net_def)

lemma foldl_fadd_NInf:
  "foldl (\<lambda>value k. fadd value (Fin (f k))) NInf ks = NInf"
  by (induction ks) simp_all

lemma estimate_value32_flood: "estimate_value32 flood_net b = NInf"
proof -
  have split: "[0..<32] = 0 # 1 # [2..<32]"
    by (simp add: upt_rec)
  have w: "(flood_net ! k) i = Fin (- flt_max)" if "k < 32" for k i
    using that by (simp add: flood_net_def)
  have "foldl (\<lambda>value k. fadd value ((flood_net ! k) (features b ! k))) (Fin 0) [0..<32] =
        foldl (\<lambda>value k. fadd value (Fin (- flt_max))) (Fin 0) [0..<32]"
    by (rule foldl_cong) (simp_all add: w)
  also have "\<dots> = foldl (\<lambda>value k. fadd value (Fin (- flt_max))) NInf [2..<32]"
    unfolding split using round32_flt_max double_flt_max by simp
  also have "\<dots> = NInf"
    by (rule foldl_fadd_NInf)
  finally show ?thesis
    by (simp add: estimate_value32_def)
qed

lemma respond32_dead:
  assumes "\<forall>a. estimate_value32 w a = NaN \<or> estimate_value32 w a = NInf"
  shows "respond32 slide w state best op = best"
proof -
  have "\<not> fgt (fadd x (estimate_value32 w a)) y" for x a y
    using assms [rule_format, of a] by auto
  then show ?thesis
    by (simp add: respond32_def split: prod.splits)
qed

lemma best_response32_dead:
  assumes "\<forall>a. estimate_value32 w a = NaN \<or> estimate_value32 w a = NInf"
  shows "best_response32 slide w state = (- 1, Fin (- flt_max))"
proof -
  have "foldl (respond32 slide w state) best ops = best" for best ops
    by (induction ops) (simp_all add: respond32_dead [OF assms])
  then show ?thesis
    by (simp add: best_response32_def)
qed

lemma expect_value32_dead_two:
  assumes "\<forall>a. estimate_value32 w a = NaN \<or> estimate_value32 w a = NInf"
    and "empty_tile b = [i, j]"
  shows "expect_value32 slide w b = Fin (- flt_max)"
proof -
  have n: "of_int32 (int (length [i, j])) = Fin 2"
    by (simp add: of_int32_def round32_2)
  show ?thesis
    by (simp only: expect_value32_def Let_def assms(2) foldl.simps best_response32_dead [OF assms(1)]
        prod.case n mul_0_9 mul_0_1 half_0_9 half_0_1 sum_step_1 sum_step_2 sum_step_3 sum_step_4)
qed

lemma slide_open_board:
  "board_slide open_board 0 = (0, [4, 5, 2, 3, 8, 9, 6, 7, 12, 13, 10, 11, 0, 0, 14, 15])"
  "board_slide open_board 1 = (- 1, open_board)"
  "board_slide open_board 2 = (- 1, open_board)"
  "board_slide open_board 3 = (0, [2, 3, 0, 0, 4, 5, 6, 7, 8, 9, 10, 11, 12, 13, 14, 15])"
  by code_simp+

lemma empty_tile_open_afters:
  "empty_tile [4, 5, 2, 3, 8, 9, 6, 7, 12, 13, 10, 11, 0, 0, 14, 15] = [12, 13]"
  "empty_tile [2, 3, 0, 0, 4, 5, 6, 7, 8, 9, 10, 11, 12, 13, 14, 15] = [2, 3]"
  by code_simp+

lemma take_action32_dead:
  assumes "\<forall>a. estimate_value32 w a = NaN \<or> estimate_value32 w a = NInf"
  shows "take_action32 board_slide w hist open_board = (action_slide (- 1), hist)"
proof -
  let ?init = "(- 1 :: int, - 1 :: int, Fin (- flt_max), replicate 16 0 :: board)"
  have ev: "expect_value32 board_slide w [4, 5, 2, 3, 8, 9, 6, 7, 12, 13, 10, 11, 0, 0, 14, 15]
              = Fin (- flt_max)"
      "expect_value32 board_slide w [2, 3, 0, 0, 4, 5, 6, 7, 8, 9, 10, 11, 12, 13, 14, 15]
              = Fin (- flt_max)"
    using assms empty_tile_open_afters by (simp_all add: expect_value32_dead_two)
  have "try_op32 board_slide w open_board ?init op = ?init" if "op \<in> set opcode" for op
    using that
    by (auto simp add: opcode_def try_op32_def slide_open_board ev score_at_floor sentinel32
        simp del: fadd.simps)
  then have "foldl (try_op32 board_slide w open_board) ?init ops = ?init"
    if "set ops \<subseteq> set opcode" for ops
    using that by (induction ops) simp_all
  then show ?thesis
    by (simp add: take_action32_def)
qed

text \<open>
  C3, as stated, fails. \<open>open_board\<close> can slide up and left, both with reward 0 and two
  empty cells left. With weights that are NaN, or all \<open>- flt_max\<close> so that every estimate
  overflows to minus infinity, no estimate passes a comparison, every best value stays
  \<open>- flt_max\<close>, \<open>expect_value\<close> rounds to \<open>- flt_max\<close>, and no score is greater than
  the initial \<open>best_reward + best_value\<close>, which is \<open>- flt_max\<close> too. \<open>take_action\<close>
  returns \<open>action::slide(-1)\<close> and appends no step.
\<close>

theorem take_action32_picks_nothing:
  "fst (board_slide open_board 0) = 0 \<and> fst (board_slide open_board 3) = 0 \<and>
   take_action32 board_slide nan_net [] open_board = (action_slide (- 1), []) \<and>
   take_action32 board_slide flood_net [] open_board = (action_slide (- 1), [])"
  by (simp add: slide_open_board take_action32_dead estimate_value32_nan estimate_value32_flood)

text \<open>
  C3, amended. On a board with a legal direction whose score, the \<open>float\<close> sum of its
  reward and \<open>expect_value\<close> of its afterstate, is greater than the initial
  \<open>best_reward + best_value\<close>, the \<open>float\<close> \<open>- flt_max\<close>, \<open>take_action\<close> returns the
  slide in a legal direction whose score no legal direction exceeds, the first in the order
  0, 1, 2, 3 among the directions with that score, and appends exactly one step to the
  history, holding the reward and the afterstate of that direction.
\<close>

theorem take_action32_best:
  assumes "\<exists>op \<in> set opcode. 0 \<le> fst (slide before op) \<and>
             fgt (score32 slide w before op) (Fin (- flt_max))"
  shows "\<exists>op \<in> set opcode. 0 \<le> fst (slide before op) \<and>
      take_action32 slide w hist before =
        (action_slide op,
         hist @ [\<lparr>reward = fst (slide before op), after = snd (slide before op)\<rparr>]) \<and>
      (\<forall>op' \<in> set opcode. 0 \<le> fst (slide before op') \<longrightarrow>
          \<not> fgt (score32 slide w before op') (score32 slide w before op) \<and>
          (score32 slide w before op' = score32 slide w before op \<longrightarrow> op \<le> op'))"
  using assms take_action32_cases [of slide w hist before] by blast

subsection \<open>Scores that differ only before rounding\<close>

lemma foldl_fadd_zeros:
  assumes "round32 a = Fin a" "\<forall>k \<in> set ks. f k = Fin 0"
  shows "foldl (\<lambda>value k. fadd value (f k)) (Fin a) ks = Fin a"
  using assms(2) by (induction ks) (simp_all add: assms(1))

lemma sparse_net_nth:
  "k < 32 \<Longrightarrow> (sparse_net ! k) i = (if k = 24 \<and> i = 93375 then Fin 100 else Fin 0)"
  by (simp add: sparse_net_def nth_list_update)

lemma estimate_value32_sparse:
  "estimate_value32 sparse_net b =
     (if extract_feature2 b 0 1 2 3 = 93375 then Fin 100 else Fin 0)"
proof -
  let ?f = "\<lambda>k. (sparse_net ! k) (features b ! k)"
  have f24: "features b ! 24 = extract_feature2 b 0 1 2 3"
    by (simp add: features_def)
  have split: "[0..<32] = [0..<24] @ 24 # [25..<32]"
    by code_simp
  have lo: "foldl (\<lambda>value k. fadd value (?f k)) (Fin 0) [0..<24] = Fin 0"
    by (rule foldl_fadd_zeros) (simp_all add: round32_0 sparse_net_nth)
  have hi: "foldl (\<lambda>value k. fadd value (?f k)) (Fin a) [25..<32] = Fin a" if "round32 a = Fin a" for a
    using that by (rule foldl_fadd_zeros) (simp add: sparse_net_nth)
  show ?thesis
    unfolding estimate_value32_def split foldl_append lo
    by (simp add: sparse_net_nth f24 hi round32_0 round32_100)
qed

lemma slide_tie_board:
  "board_slide tie_board 0 = (0, tie_up)"
  "board_slide tie_board 1 = (- 1, tie_board)"
  "board_slide tie_board 2 = (- 1, tie_board)"
  "board_slide tie_board 3 = (0, tie_left)"
  by code_simp+

lemma empty_tile_tie: "empty_tile tie_up = [12]" "empty_tile tie_left = [3]"
  by code_simp+

lemma slide_tie_up_1:
  "board_slide (tie_up[12 := 1]) 0 = (- 1, tie_up[12 := 1])"
  "board_slide (tie_up[12 := 1]) 1 = (- 1, tie_up[12 := 1])"
  "board_slide (tie_up[12 := 1]) 2 = (- 1, tie_up[12 := 1])"
  "board_slide (tie_up[12 := 1]) 3 = (- 1, tie_up[12 := 1])"
  by code_simp+

lemma slide_tie_up_2:
  "board_slide (tie_up[12 := 2]) 0 = (- 1, tie_up[12 := 2])"
  "board_slide (tie_up[12 := 2]) 1 = (8, [6, 3, 4, 5, 10, 7, 8, 2, 14, 11, 12, 13, 0, 3, 16, 17])"
  "board_slide (tie_up[12 := 2]) 2 = (- 1, tie_up[12 := 2])"
  "board_slide (tie_up[12 := 2]) 3 = (8, [6, 3, 4, 5, 10, 7, 8, 2, 14, 11, 12, 13, 3, 16, 17, 0])"
  by code_simp+

lemma slide_tie_left_1:
  "board_slide (tie_left[3 := 1]) 0 = (- 1, tie_left[3 := 1])"
  "board_slide (tie_left[3 := 1]) 1 = (- 1, tie_left[3 := 1])"
  "board_slide (tie_left[3 := 1]) 2 = (- 1, tie_left[3 := 1])"
  "board_slide (tie_left[3 := 1]) 3 = (- 1, tie_left[3 := 1])"
  by code_simp+

lemma slide_tie_left_2:
  "board_slide (tie_left[3 := 2]) 0 = (8, [3, 4, 5, 3, 6, 7, 8, 13, 10, 11, 12, 17, 14, 2, 16, 0])"
  "board_slide (tie_left[3 := 2]) 1 = (- 1, tie_left[3 := 2])"
  "board_slide (tie_left[3 := 2]) 2 = (8, [3, 4, 5, 0, 6, 7, 8, 3, 10, 11, 12, 13, 14, 2, 16, 17])"
  "board_slide (tie_left[3 := 2]) 3 = (- 1, tie_left[3 := 2])"
  by code_simp+

lemma best_response32_tie:
  "best_response32 board_slide sparse_net (tie_up[12 := 1]) = (- 1, Fin (- flt_max))"
  "best_response32 board_slide sparse_net (tie_up[12 := 2]) = (8, Fin 0)"
  "best_response32 board_slide sparse_net (tie_left[3 := 1]) = (- 1, Fin (- flt_max))"
  "best_response32 board_slide sparse_net (tie_left[3 := 2]) = (8, Fin 100)"
  using round32_sentinel
  by (simp_all add: best_response32_def respond32_def opcode_def slide_tie_up_1 slide_tie_up_2
      slide_tie_left_1 slide_tie_left_2 estimate_value32_sparse extract_feature2_def
      of_int32_def round32_8 round32_108 round32_m1 flt_max_def del: One_nat_def)

lemma expect_value32_tie:
  "expect_value32 board_slide sparse_net tie_up = Fin (- (15099493 * 2 ^ 104))"
  "expect_value32 board_slide sparse_net tie_left = Fin (- (15099493 * 2 ^ 104))"
  using round32_0_9_max absorb_10
  by (simp_all add: expect_value32_def empty_tile_tie best_response32_tie mul_0_9 mul_0_1_100
      mul_0_1_0 of_int32_def round32_1 round32_0 round32_10 del: One_nat_def)

lemma score32_tie:
  "score32 board_slide sparse_net tie_board 0 = Fin (- (15099493 * 2 ^ 104))"
  "score32 board_slide sparse_net tie_board 3 = Fin (- (15099493 * 2 ^ 104))"
  using round32_0_9_max
  by (simp_all add: score32_def slide_tie_board expect_value32_tie of_int32_def round32_0)

text \<open>
  An instance: on \<open>tie_board\<close> with \<open>sparse_net\<close> the slide to the left leads to an
  estimate of 100 where the slide up leads to 0, but \<open>- 0.9 * flt_max\<close> absorbs the
  difference: both scores are the same \<open>float\<close>, and the first direction, up, is
  returned and recorded.
\<close>

theorem take_action32_best_witness:
  "score32 board_slide sparse_net tie_board 0 = score32 board_slide sparse_net tie_board 3 \<and>
   fgt (score32 board_slide sparse_net tie_board 0) (Fin (- flt_max)) \<and>
   take_action32 board_slide sparse_net [] tie_board =
     (Slide Up, [\<lparr>reward = 0, after = tie_up\<rparr>])"
proof -
  have above: "fgt (score32 board_slide sparse_net tie_board 0) (Fin (- flt_max))"
    by (simp add: score32_tie flt_max_def)
  have legal: "0 \<le> fst (board_slide tie_board 0)" "(0::int) \<in> set opcode"
    by (simp_all add: slide_tie_board opcode_def)
  have h: "\<exists>op \<in> set opcode. 0 \<le> fst (board_slide tie_board op) \<and>
             fgt (score32 board_slide sparse_net tie_board op) (Fin (- flt_max))"
    using above legal by blast
  from take_action32_best [where slide = board_slide and w = sparse_net and before = tie_board
      and hist = "[]", OF h]
  obtain op where op: "op \<in> set opcode" "0 \<le> fst (board_slide tie_board op)"
    "take_action32 board_slide sparse_net [] tie_board =
        (action_slide op,
         [] @ [\<lparr>reward = fst (board_slide tie_board op), after = snd (board_slide tie_board op)\<rparr>])"
    "\<forall>op' \<in> set opcode. 0 \<le> fst (board_slide tie_board op') \<longrightarrow>
          \<not> fgt (score32 board_slide sparse_net tie_board op')
               (score32 board_slide sparse_net tie_board op) \<and>
          (score32 board_slide sparse_net tie_board op' = score32 board_slide sparse_net tie_board op
             \<longrightarrow> op \<le> op')"
    by blast
  have "op = 0 \<or> op = 3"
    using op(1,2) by (auto simp: opcode_def slide_tie_board)
  moreover have "op \<noteq> 3"
  proof
    assume "op = 3"
    then have "(3::int) \<le> 0"
      using op(4) [rule_format, of 0] legal by (simp add: score32_tie)
    then show False by simp
  qed
  ultimately have "op = 0"
    by auto
  then show ?thesis
    using op(3) above by (simp add: slide_tie_board score32_tie action_slide_def)
qed

end
